theory Spec2Isabelle
  imports Main "HOL-Library.AList" "HOL-Library.Multiset"
begin

section \<open>Python values and outcomes\<close>

text \<open>
  The exceptions the modelled functions can raise. A Python call either raises, or
  returns the object \<open>False\<close> (the solvers' way of signalling a contradiction), or
  returns a proper value.
\<close>

datatype error = ValueError | IndexError | KeyError | TypeError | AttributeError
  | RecursionError
  | ZeroDivisionError

datatype 'a outcome = Raises error | PyFalse | Returns 'a

type_synonym cell = string
type_synonym digit = string

section \<open>sudo.py: the board and constraint model builder\<close>

text \<open>\<open>cross(A, B)\<close>: \<open>[a+b for a in A for b in B]\<close>.\<close>

definition cross :: "string list \<Rightarrow> string list \<Rightarrow> string list" where
  "cross A B = concat (map (\<lambda>a. map (\<lambda>b. a @ b) B) A)"

text \<open>Iterating a Python string yields its one-character strings.\<close>

definition chars_of :: "string \<Rightarrow> string list" where
  "chars_of s = map (\<lambda>c. [c]) s"

text \<open>\<open>str(n)\<close> for a natural number: its decimal digits.\<close>

definition digit_char :: "nat \<Rightarrow> char" where
  "digit_char d = char_of (48 + d)"

fun str :: "nat \<Rightarrow> string" where
  "str n = (if n < 10 then [digit_char n] else str (n div 10) @ [digit_char (n mod 10)])"

declare str.simps [simp del]

text \<open>
  \<open>int(size**0.5)\<close>: the integer part of the square root. (The source computes it in
  floating point, which agrees with the exact integer square root on every size the
  builder can accept.)
\<close>

fun sqrt_down :: "nat \<Rightarrow> nat \<Rightarrow> nat" where
  "sqrt_down n 0 = 0"
| "sqrt_down n (Suc k) = (if Suc k * Suc k \<le> n then Suc k else sqrt_down n k)"

definition int_sqrt :: "nat \<Rightarrow> nat" where
  "int_sqrt n = sqrt_down n n"

text \<open>
  \<open>while size % subgrid_rows != 0: subgrid_rows -= 1\<close>. Reaching 0 would raise
  \<open>ZeroDivisionError\<close> at \<open>size % 0\<close>.
\<close>

fun subgrid_rows_loop :: "nat \<Rightarrow> nat \<Rightarrow> error + nat" where
  "subgrid_rows_loop sz 0 = Inl ZeroDivisionError"
| "subgrid_rows_loop sz (Suc r) =
     (if sz mod Suc r \<noteq> 0 then subgrid_rows_loop sz r else Inr (Suc r))"

text \<open>\<open>range(0, n, step)\<close> for a positive step.\<close>

definition range_step :: "nat \<Rightarrow> nat \<Rightarrow> nat list" where
  "range_step n step = map (\<lambda>k. k * step) [0..<(n + step - 1) div step]"

text \<open>\<open>xs[i]\<close> for a non-negative index: \<open>IndexError\<close> out of range.\<close>

definition py_index :: "'a list \<Rightarrow> nat \<Rightarrow> error + 'a" where
  "py_index xs i = (if i < length xs then Inr (xs ! i) else Inl IndexError)"

text \<open>Running a list of computations in order; the first exception wins.\<close>

fun sequence :: "(error + 'a) list \<Rightarrow> error + 'a list" where
  "sequence [] = Inr []"
| "sequence (Inl e # _) = Inl e"
| "sequence (Inr x # rs) = (case sequence rs of Inl e \<Rightarrow> Inl e | Inr xs \<Rightarrow> Inr (x # xs))"

text \<open>
  The body of the innermost subgrid loop: \<open>row = rows[i+x]; col = cols[j+y];
  subgrid.append(f"{row}{col}")\<close>.
\<close>

definition subgrid_cell :: "string \<Rightarrow> string list \<Rightarrow> nat \<Rightarrow> nat \<Rightarrow> error + cell" where
  "subgrid_cell rows cols a b =
     (case py_index rows a of
        Inl e \<Rightarrow> Inl e
      | Inr row \<Rightarrow> (case py_index cols b of Inl e \<Rightarrow> Inl e | Inr col \<Rightarrow> Inr (row # col)))"

definition subgrid :: "string \<Rightarrow> string list \<Rightarrow> nat \<Rightarrow> nat \<Rightarrow> nat \<Rightarrow> nat \<Rightarrow> error + cell list" where
  "subgrid rows cols sr sc i j =
     sequence (concat (map (\<lambda>x. map (\<lambda>y. subgrid_cell rows cols (i + x) (j + y)) [0..<sc]) [0..<sr]))"

definition subgrids :: "string \<Rightarrow> string list \<Rightarrow> nat \<Rightarrow> nat \<Rightarrow> nat \<Rightarrow> error + cell list list" where
  "subgrids rows cols sz sr sc =
     sequence (concat (map (\<lambda>i. map (\<lambda>j. subgrid rows cols sr sc i j) (range_step sz sc))
                           (range_step sz sr)))"

text \<open>
  The digit alphabet: \<open>'1'..'9'\<close>, then \<open>chr(ord('A') + i)\<close>. \<open>chr\<close> raises
  \<open>ValueError\<close> beyond the last code point.
\<close>

definition make_digits :: "nat \<Rightarrow> error + digit list" where
  "make_digits sz =
     (let ds = map (\<lambda>i. str (i + 1)) [0..<min sz 9] in
      if sz > 9 then
        (if 65 + (sz - 10) > 1114111 then Inl ValueError
         else Inr (ds @ map (\<lambda>i. [char_of (65 + i)]) [0..<sz - 9]))
      else Inr ds)"

text \<open>
  The tuple \<open>initialize_structures\<close> returns. The dictionaries \<open>units\<close> and
  \<open>peers\<close> are association lists in insertion order; a peer set is held as a list
  without repetitions (Python fixes no iteration order for a set: the functions that
  iterate one take the order as a parameter).
\<close>

record structures =
  rows :: string
  cols :: "string list"
  squares :: "cell list"
  unitlist :: "cell list list"
  units :: "(cell \<times> cell list list) list"
  peers :: "(cell \<times> cell list) list"
  subgrid_rows :: nat
  subgrid_cols :: nat
  digits :: "digit list"

definition alphabet :: string where
  "alphabet = ''ABCDEFGHIJKLMNOPQRSTUVWXYZ''"

definition make_units :: "cell list \<Rightarrow> cell list list \<Rightarrow> (cell \<times> cell list list) list" where
  "make_units sqs ul = map (\<lambda>s. (s, filter (\<lambda>u. s \<in> set u) ul)) sqs"

definition make_peers :: "cell list \<Rightarrow> cell list list \<Rightarrow> (cell \<times> cell list) list" where
  "make_peers sqs ul =
     map (\<lambda>s. (s, removeAll s (remdups (concat (filter (\<lambda>u. s \<in> set u) ul))))) sqs"

definition initialize_structures :: "int \<Rightarrow> error + structures" where
  "initialize_structures sz =
     (if sz < 1 then Inl ValueError
      else
        let n = nat sz;
            rs = take n alphabet;
            cs = map (\<lambda>i. str (i + 1)) [0..<n];
            sqs = cross (chars_of rs) cs
        in case subgrid_rows_loop n (int_sqrt n) of
             Inl e \<Rightarrow> Inl e
           | Inr sr \<Rightarrow>
               let sc = n div sr in
               (case make_digits n of
                  Inl e \<Rightarrow> Inl e
                | Inr ds \<Rightarrow>
                    (case subgrids rs cs n sr sc of
                       Inl e \<Rightarrow> Inl e
                     | Inr boxes \<Rightarrow>
                         let ul = map (\<lambda>c. map (\<lambda>r. r @ c) (chars_of rs)) cs
                                @ map (\<lambda>r. map (\<lambda>c. r @ c) cs) (chars_of rs)
                                @ boxes
                         in Inr \<lparr> rows = rs, cols = cs, squares = sqs, unitlist = ul,
                                  units = make_units sqs ul, peers = make_peers sqs ul,
                                  subgrid_rows = sr, subgrid_cols = sc, digits = ds \<rparr>)))"

subsection \<open>The model the builder returns when no index is out of range\<close>

text \<open>
  The column labels, the cells of one subgrid, the list of subgrids and the whole unit
  list, written without the exception branches. The lemmas below show that the builder
  computes exactly these for every size from 1 to 26.
\<close>

definition box_cells :: "string \<Rightarrow> string list \<Rightarrow> nat \<Rightarrow> nat \<Rightarrow> nat \<Rightarrow> nat \<Rightarrow> cell list" where
  "box_cells rs cs sr sc i j =
     concat (map (\<lambda>x. map (\<lambda>y. rs ! (i + x) # cs ! (j + y)) [0..<sc]) [0..<sr])"

definition box_units :: "string \<Rightarrow> string list \<Rightarrow> nat \<Rightarrow> nat \<Rightarrow> cell list list" where
  "box_units rs cs sr sc =
     map (\<lambda>(ki, kj). box_cells rs cs sr sc (ki * sr) (kj * sc)) (List.product [0..<sc] [0..<sr])"

definition cols_of :: "nat \<Rightarrow> string list" where
  "cols_of n = map (\<lambda>i. str (i + 1)) [0..<n]"

definition unitlist_of :: "string \<Rightarrow> string list \<Rightarrow> nat \<Rightarrow> nat \<Rightarrow> cell list list" where
  "unitlist_of rs cs sr sc =
     map (\<lambda>c. map (\<lambda>r. r @ c) (chars_of rs)) cs
     @ map (\<lambda>r. map (\<lambda>c. r @ c) cs) (chars_of rs)
     @ box_units rs cs sr sc"

section \<open>Properties of the model builder\<close>

lemma sequence_Inr: "sequence (map Inr xs) = Inr xs"
  by (induction xs) auto

lemma sequence_Inr_length: "sequence rs = Inr xs \<Longrightarrow> length xs = length rs"
proof (induction rs arbitrary: xs)
  case Nil then show ?case by simp
next
  case (Cons r rs)
  then show ?case by (cases r) (auto split: sum.splits)
qed

lemma sqrt_down_pos: "0 < k \<Longrightarrow> 0 < n \<Longrightarrow> 0 < sqrt_down n k"
proof (induction k)
  case 0 then show ?case by simp
next
  case (Suc k)
  then show ?case by (cases k) auto
qed

lemma int_sqrt_pos: "0 < n \<Longrightarrow> 0 < int_sqrt n"
  by (simp add: int_sqrt_def sqrt_down_pos)

lemma subgrid_rows_loop_divisor:
  "0 < k \<Longrightarrow> \<exists>r. subgrid_rows_loop n k = Inr r \<and> 0 < r \<and> r \<le> k \<and> r dvd n"
proof (induction k)
  case 0 then show ?case by simp
next
  case (Suc k)
  show ?case
  proof (cases "n mod Suc k = 0")
    case True then show ?thesis by (auto simp: mod_eq_0_iff_dvd)
  next
    case False
    then have "k \<noteq> 0" by (cases k) auto
    with Suc False show ?thesis by (auto simp: le_Suc_eq)
  qed
qed

lemma range_step_dvd: "0 < r \<Longrightarrow> r dvd n \<Longrightarrow> range_step n r = map (\<lambda>k. k * r) [0..<n div r]"
proof -
  assume r: "0 < r" and d: "r dvd n"
  then obtain q where q: "n = r * q" by (auto elim: dvdE)
  obtain r' where r': "r = Suc r'" using r by (cases r) auto
  have h: "r * q + r - 1 = r' + q * r" by (simp add: r' algebra_simps)
  have "(r' + q * r) div r = q + r' div r" using r by (intro div_mult_self1) simp
  then have "(r * q + r - 1) div r = q" by (simp only: h) (simp add: r')
  then show ?thesis using r by (simp add: range_step_def q)
qed

lemma subgrid_ok:
  assumes "i + sr \<le> length rs" "j + sc \<le> length cs"
  shows "subgrid rs cs sr sc i j = Inr (box_cells rs cs sr sc i j)"
proof -
  have "concat (map (\<lambda>x. map (\<lambda>y. subgrid_cell rs cs (i + x) (j + y)) [0..<sc]) [0..<sr])
      = concat (map (\<lambda>x. map (\<lambda>y. Inr (rs ! (i + x) # cs ! (j + y))) [0..<sc]) [0..<sr])"
    using assms
    by (intro arg_cong[where f=concat] map_cong refl) (auto simp: subgrid_cell_def py_index_def)
  also have "\<dots> = map Inr (box_cells rs cs sr sc i j)"
    by (simp add: box_cells_def map_concat comp_def)
  finally show ?thesis by (simp add: subgrid_def sequence_Inr)
qed

lemma subgrids_ok:
  assumes "0 < sr" "sr * sc = n" "length rs = n" "length cs = n" "0 < n"
  shows "subgrids rs cs n sr sc = Inr (box_units rs cs sr sc)"
proof -
  have sc: "0 < sc" using assms by (cases sc) auto
  have d1: "sr dvd n" "sc dvd n" using assms by auto
  have q1: "n div sr = sc" "n div sc = sr" using assms sc by auto
  have r1: "range_step n sr = map (\<lambda>k. k * sr) [0..<sc]"
    using range_step_dvd[OF assms(1) d1(1)] q1 by simp
  have r2: "range_step n sc = map (\<lambda>k. k * sc) [0..<sr]"
    using range_step_dvd[OF sc d1(2)] q1 by simp
  have le1: "ki * sr + sr \<le> n" if "ki < sc" for ki
  proof -
    have "Suc ki * sr \<le> sc * sr" using that by (intro mult_le_mono1) simp
    then show ?thesis using assms by (simp add: algebra_simps)
  qed
  have le2: "kj * sc + sc \<le> n" if "kj < sr" for kj
  proof -
    have "Suc kj * sc \<le> sr * sc" using that by (intro mult_le_mono1) simp
    then show ?thesis using assms by (simp add: algebra_simps)
  qed
  have "concat (map (\<lambda>i. map (\<lambda>j. subgrid rs cs sr sc i j) (range_step n sc)) (range_step n sr))
      = concat (map (\<lambda>ki. map (\<lambda>kj. Inr (box_cells rs cs sr sc (ki * sr) (kj * sc))) [0..<sr]) [0..<sc])"
    unfolding r1 r2 map_map comp_def
    using assms le1 le2
    by (intro arg_cong[where f=concat] map_cong refl subgrid_ok) auto
  also have "\<dots> = map Inr (box_units rs cs sr sc)"
    by (simp add: box_units_def product_concat_map map_concat comp_def)
  finally show ?thesis by (simp add: subgrids_def sequence_Inr)
qed

lemma distinct_alphabet: "distinct alphabet"
  by (simp add: alphabet_def)

lemma length_alphabet: "length alphabet = 26"
  by (simp add: alphabet_def)

lemma distinct_cols_26: "distinct (cols_of 26)"
  unfolding cols_of_def by code_simp

lemma cols_of_take: "n \<le> 26 \<Longrightarrow> cols_of n = take n (cols_of 26)"
  by (simp add: cols_of_def take_map)

lemma distinct_cols_of: "n \<le> 26 \<Longrightarrow> distinct (cols_of n)"
  by (metis cols_of_take distinct_cols_26 distinct_take)

lemma make_digits_ok: "n \<le> 26 \<Longrightarrow> \<exists>ds. make_digits n = Inr ds \<and> length ds = n"
  by (auto simp: make_digits_def Let_def)

lemma initialize_structures_form:
  assumes "1 \<le> sz" "sz \<le> 26"
  obtains sr sc ds where
    "0 < sr" "sr * sc = nat sz" "length ds = nat sz"
    "initialize_structures sz =
       Inr \<lparr> rows = take (nat sz) alphabet, cols = cols_of (nat sz),
             squares = cross (chars_of (take (nat sz) alphabet)) (cols_of (nat sz)),
             unitlist = unitlist_of (take (nat sz) alphabet) (cols_of (nat sz)) sr sc,
             units = make_units (cross (chars_of (take (nat sz) alphabet)) (cols_of (nat sz)))
                       (unitlist_of (take (nat sz) alphabet) (cols_of (nat sz)) sr sc),
             peers = make_peers (cross (chars_of (take (nat sz) alphabet)) (cols_of (nat sz)))
                       (unitlist_of (take (nat sz) alphabet) (cols_of (nat sz)) sr sc),
             subgrid_rows = sr, subgrid_cols = sc, digits = ds \<rparr>"
proof -
  define n where "n = nat sz"
  have n: "0 < n" "n \<le> 26" using assms by (auto simp: n_def)
  obtain sr where sr: "subgrid_rows_loop n (int_sqrt n) = Inr sr" "0 < sr" "sr dvd n"
    using subgrid_rows_loop_divisor[OF int_sqrt_pos[OF n(1)], of n] by blast
  have mul: "sr * (n div sr) = n" using sr by simp
  obtain ds where ds: "make_digits n = Inr ds" "length ds = n"
    using make_digits_ok[OF n(2)] by blast
  have len: "length (take n alphabet) = n" "length (cols_of n) = n"
    using n by (simp_all add: length_alphabet cols_of_def)
  have boxes: "subgrids (take n alphabet) (cols_of n) n sr (n div sr)
                 = Inr (box_units (take n alphabet) (cols_of n) sr (n div sr))"
    by (rule subgrids_ok[OF sr(2) mul len n(1)])
  have nsz: "\<not> sz < 1" using assms by simp
  have "initialize_structures sz =
       Inr \<lparr> rows = take n alphabet, cols = cols_of n,
             squares = cross (chars_of (take n alphabet)) (cols_of n),
             unitlist = unitlist_of (take n alphabet) (cols_of n) sr (n div sr),
             units = make_units (cross (chars_of (take n alphabet)) (cols_of n))
                       (unitlist_of (take n alphabet) (cols_of n) sr (n div sr)),
             peers = make_peers (cross (chars_of (take n alphabet)) (cols_of n))
                       (unitlist_of (take n alphabet) (cols_of n) sr (n div sr)),
             subgrid_rows = sr, subgrid_cols = n div sr, digits = ds \<rparr>"
    unfolding initialize_structures_def Let_def n_def[symmetric] cols_of_def[symmetric]
    by (simp only: nsz if_False sr(1) ds(1) boxes sum.case unitlist_of_def)
  then show ?thesis using that[OF sr(2) mul[unfolded n_def] ds(2)[unfolded n_def]]
    by (simp add: n_def)
qed

lemma set_cross_cells:
  "set (cross (chars_of rs) cs) = {r # c | r c. r \<in> set rs \<and> c \<in> set cs}"
  by (auto simp: cross_def chars_of_def)

lemma length_filter_eq_1:
  assumes "distinct xs" "x \<in> set xs" "\<And>y. y \<in> set xs \<Longrightarrow> P y \<longleftrightarrow> y = x"
  shows "length (filter P xs) = 1"
proof -
  have "filter P xs = filter (\<lambda>y. y = x) xs"
    using assms(3) by (intro filter_cong refl) auto
  moreover have "length (filter (\<lambda>y. y = x) xs) = card ({y. y = x} \<inter> set xs)"
    by (rule distinct_length_filter[OF assms(1)])
  moreover have "{y. y = x} \<inter> set xs = {x}" using assms(2) by auto
  ultimately show ?thesis by simp
qed

lemma col_units_count:
  assumes "distinct cs" "r0 \<in> set rs" "c0 \<in> set cs"
  shows "length (filter (\<lambda>u. (r0 # c0) \<in> set u) (map (\<lambda>c. map (\<lambda>r. r @ c) (chars_of rs)) cs)) = 1"
proof -
  have "length (filter (\<lambda>c. (r0 # c0) \<in> set (map (\<lambda>r. r @ c) (chars_of rs))) cs) = 1"
    using assms by (intro length_filter_eq_1) (auto simp: chars_of_def)
  then show ?thesis by (simp add: filter_map comp_def)
qed

lemma row_units_count:
  assumes "distinct rs" "r0 \<in> set rs" "c0 \<in> set cs"
  shows "length (filter (\<lambda>u. (r0 # c0) \<in> set u) (map (\<lambda>r. map (\<lambda>c. r @ c) cs) (chars_of rs))) = 1"
proof -
  have "length (filter (\<lambda>r. (r0 # c0) \<in> set (map (\<lambda>c. [r] @ c) cs)) rs) = 1"
    using assms by (intro length_filter_eq_1) auto
  then show ?thesis by (simp add: filter_map comp_def chars_of_def)
qed

lemma set_box_cells:
  "set (box_cells rs cs sr sc i j) = {rs ! (i + x) # cs ! (j + y) | x y. x < sr \<and> y < sc}"
proof -
  have "set (box_cells rs cs sr sc i j)
      = (\<Union>x\<in>{0..<sr}. (\<lambda>y. rs ! (i + x) # cs ! (j + y)) ` {0..<sc})"
    by (simp add: box_cells_def)
  also have "\<dots> = {rs ! (i + x) # cs ! (j + y) | x y. x < sr \<and> y < sc}"
  proof (intro set_eqI iffI)
    fix s assume "s \<in> (\<Union>x\<in>{0..<sr}. (\<lambda>y. rs ! (i + x) # cs ! (j + y)) ` {0..<sc})"
    then obtain x y where "x < sr" "y < sc" "s = rs ! (i + x) # cs ! (j + y)" by auto
    then show "s \<in> {rs ! (i + x) # cs ! (j + y) | x y. x < sr \<and> y < sc}" by blast
  next
    fix s assume "s \<in> {rs ! (i + x) # cs ! (j + y) | x y. x < sr \<and> y < sc}"
    then obtain x y where xy: "x < sr" "y < sc" "s = rs ! (i + x) # cs ! (j + y)" by blast
    then have "x \<in> {0..<sr}" "s \<in> (\<lambda>y. rs ! (i + x) # cs ! (j + y)) ` {0..<sc}" by auto
    then show "s \<in> (\<Union>x\<in>{0..<sr}. (\<lambda>y. rs ! (i + x) # cs ! (j + y)) ` {0..<sc})"
      by (rule UN_I)
  qed
  finally show ?thesis .
qed

lemma in_box_cells:
  assumes "distinct rs" "distinct cs" "a < length rs" "b < length cs"
    "i + sr \<le> length rs" "j + sc \<le> length cs"
  shows "(rs ! a # cs ! b) \<in> set (box_cells rs cs sr sc i j)
           \<longleftrightarrow> i \<le> a \<and> a < i + sr \<and> j \<le> b \<and> b < j + sc"
proof
  assume "(rs ! a # cs ! b) \<in> set (box_cells rs cs sr sc i j)"
  then obtain x y where xy: "x < sr" "y < sc" "rs ! a = rs ! (i + x)" "cs ! b = cs ! (j + y)"
    by (auto simp: set_box_cells)
  have "a = i + x" using xy assms by (simp add: nth_eq_iff_index_eq)
  moreover have "b = j + y" using xy assms by (simp add: nth_eq_iff_index_eq)
  ultimately show "i \<le> a \<and> a < i + sr \<and> j \<le> b \<and> b < j + sc" using xy by simp
next
  assume h: "i \<le> a \<and> a < i + sr \<and> j \<le> b \<and> b < j + sc"
  then have "a - i < sr" "b - j < sc" "rs ! a = rs ! (i + (a - i))" "cs ! b = cs ! (j + (b - j))"
    by auto
  then show "(rs ! a # cs ! b) \<in> set (box_cells rs cs sr sc i j)"
    unfolding set_box_cells by blast
qed

lemma block_index: "0 < (m::nat) \<Longrightarrow> k * m \<le> a \<and> a < k * m + m \<longleftrightarrow> k = a div m"
proof
  assume m: "0 < m" and h: "k * m \<le> a \<and> a < k * m + m"
  then have "a div m = k" by (intro div_nat_eqI) (auto simp: algebra_simps)
  then show "k = a div m" by simp
next
  assume m: "0 < m" and "k = a div m"
  then show "k * m \<le> a \<and> a < k * m + m"
    by (metis add.commute dividend_less_div_times div_times_less_eq_dividend mult.commute)
qed

lemma box_units_count:
  assumes "distinct rs" "distinct cs" "length rs = n" "length cs = n"
    "0 < sr" "sr * sc = n" "a < n" "b < n"
  shows "length (filter (\<lambda>u. (rs ! a # cs ! b) \<in> set u) (box_units rs cs sr sc)) = 1"
proof -
  have sc: "0 < sc" using assms by (cases sc) auto
  have le1: "ki * sr + sr \<le> n" if "ki < sc" for ki
  proof -
    have "Suc ki * sr \<le> sc * sr" using that by (intro mult_le_mono1) simp
    then show ?thesis using assms by (simp add: algebra_simps)
  qed
  have le2: "kj * sc + sc \<le> n" if "kj < sr" for kj
  proof -
    have "Suc kj * sc \<le> sr * sc" using that by (intro mult_le_mono1) simp
    then show ?thesis using assms by (simp add: algebra_simps)
  qed
  have da: "a div sr < sc" using assms by (simp add: less_mult_imp_div_less mult.commute)
  have db: "b div sc < sr" using assms by (simp add: less_mult_imp_div_less)
  have "length (filter (\<lambda>p. (rs ! a # cs ! b) \<in> set (case p of (ki, kj) \<Rightarrow>
            box_cells rs cs sr sc (ki * sr) (kj * sc))) (List.product [0..<sc] [0..<sr])) = 1"
  proof (rule length_filter_eq_1[where x = "(a div sr, b div sc)"])
    show "distinct (List.product [0..<sc] [0..<sr])" by (simp add: distinct_product)
    show "(a div sr, b div sc) \<in> set (List.product [0..<sc] [0..<sr])" using da db by simp
    fix p assume "p \<in> set (List.product [0..<sc] [0..<sr])"
    then obtain ki kj where p: "p = (ki, kj)" "ki < sc" "kj < sr" by auto
    have "(rs ! a # cs ! b) \<in> set (box_cells rs cs sr sc (ki * sr) (kj * sc))
        \<longleftrightarrow> ki * sr \<le> a \<and> a < ki * sr + sr \<and> kj * sc \<le> b \<and> b < kj * sc + sc"
      using assms le1[OF p(2)] le2[OF p(3)] by (intro in_box_cells) auto
    also have "\<dots> \<longleftrightarrow> ki = a div sr \<and> kj = b div sc"
      using block_index[OF assms(5), of ki a] block_index[OF sc, of kj b] by blast
    finally show "(rs ! a # cs ! b) \<in> set (case p of (ki, kj) \<Rightarrow>
            box_cells rs cs sr sc (ki * sr) (kj * sc)) \<longleftrightarrow> p = (a div sr, b div sc)"
      by (simp add: p)
  qed
  then show ?thesis by (simp add: box_units_def filter_map comp_def)
qed

lemma sequence_Inl_mem: "sequence rs = Inl e \<Longrightarrow> Inl e \<in> set rs"
proof (induction rs)
  case Nil then show ?case by simp
next
  case (Cons r rs) then show ?case by (cases r) (auto split: sum.splits)
qed

lemma sequence_fails: "Inl e \<in> set rs \<Longrightarrow> \<exists>e'. sequence rs = Inl e'"
proof (induction rs)
  case Nil then show ?case by simp
next
  case (Cons r rs) then show ?case by (cases r) (auto split: sum.splits)
qed

lemma subgrid_cell_error: "subgrid_cell rs cs a b = Inl e \<Longrightarrow> e = IndexError"
  by (auto simp: subgrid_cell_def py_index_def split: if_splits sum.splits)

lemma subgrid_error: "subgrid rs cs sr sc i j = Inl e \<Longrightarrow> e = IndexError"
  by (auto simp: subgrid_def dest!: sequence_Inl_mem subgrid_cell_error[OF sym])

lemma subgrids_error: "subgrids rs cs n sr sc = Inl e \<Longrightarrow> e = IndexError"
  by (auto simp: subgrids_def dest!: sequence_Inl_mem subgrid_error[OF sym])

lemma in_concat_map2:
  "x \<in> set xs \<Longrightarrow> y \<in> set ys \<Longrightarrow> f x y \<in> set (concat (map (\<lambda>x. map (\<lambda>y. f x y) ys) xs))"
  by auto

lemma subgrid_fails:
  assumes "0 < sr" "0 < sc" "length rs < i + sr"
  shows "subgrid rs cs sr sc i j = Inl IndexError"
proof -
  have "subgrid_cell rs cs (i + (sr - 1)) (j + 0) = Inl IndexError"
    using assms by (auto simp: subgrid_cell_def py_index_def)
  moreover have "sr - 1 \<in> set [0..<sr]" "0 \<in> set [0..<sc]" using assms by auto
  then have "subgrid_cell rs cs (i + (sr - 1)) (j + 0) \<in> set (concat (map (\<lambda>x. map (\<lambda>y.
       subgrid_cell rs cs (i + x) (j + y)) [0..<sc]) [0..<sr]))"
    by (rule in_concat_map2)
  ultimately have "Inl IndexError \<in> set (concat (map (\<lambda>x. map (\<lambda>y.
       subgrid_cell rs cs (i + x) (j + y)) [0..<sc]) [0..<sr]))"
    by simp
  then obtain e where "subgrid rs cs sr sc i j = Inl e"
    unfolding subgrid_def using sequence_fails by blast
  then show ?thesis using subgrid_error by blast
qed

lemma subgrids_fails:
  assumes "0 < sr" "sr dvd n" "length rs < n"
  shows "subgrids rs cs n sr (n div sr) = Inl IndexError"
proof -
  have n: "0 < n" using assms by simp
  define sc where "sc = n div sr"
  have mul: "sr * sc = n" using assms by (simp add: sc_def)
  have sc: "0 < sc" using n mul by (cases sc) auto
  have r1: "range_step n sr = map (\<lambda>k. k * sr) [0..<sc]"
    using range_step_dvd[OF assms(1,2)] by (simp add: sc_def)
  have "sc dvd n" using mul by auto
  moreover have "n div sc = sr" using mul sc by auto
  ultimately have r2: "range_step n sc = map (\<lambda>k. k * sc) [0..<sr]"
    using range_step_dvd[OF sc, of n] by simp
  have "(sc - 1) * sr + sr = n" using sc mul by (cases sc) (auto simp: algebra_simps)
  then have "subgrid rs cs sr sc ((sc - 1) * sr) (0 * sc) = Inl IndexError"
    using assms sc by (intro subgrid_fails) auto
  moreover have "(sc - 1) * sr \<in> set (range_step n sr)" "0 * sc \<in> set (range_step n sc)"
    unfolding r1 r2 using sc assms by auto
  then have "subgrid rs cs sr sc ((sc - 1) * sr) (0 * sc) \<in> set (concat (map (\<lambda>i. map (\<lambda>j.
       subgrid rs cs sr sc i j) (range_step n sc)) (range_step n sr)))"
    by (rule in_concat_map2)
  ultimately have "Inl IndexError \<in> set (concat (map (\<lambda>i. map (\<lambda>j.
       subgrid rs cs sr sc i j) (range_step n sc)) (range_step n sr)))"
    by simp
  then obtain e where "subgrids rs cs n sr sc = Inl e"
    unfolding subgrids_def using sequence_fails by blast
  then show ?thesis using subgrids_error by (simp add: sc_def)
qed

lemma initialize_structures_large:
  assumes "26 < sz"
  shows "initialize_structures sz
           = (case make_digits (nat sz) of Inl e \<Rightarrow> Inl e | Inr ds \<Rightarrow> Inl IndexError)"
proof -
  define n where "n = nat sz"
  have n: "0 < n" "26 < n" using assms by (auto simp: n_def)
  obtain sr where sr: "subgrid_rows_loop n (int_sqrt n) = Inr sr" "0 < sr" "sr dvd n"
    using subgrid_rows_loop_divisor[OF int_sqrt_pos[OF n(1)], of n] by blast
  have len: "length (take n alphabet) < n" using n by (simp add: length_alphabet)
  have boxes: "subgrids (take n alphabet) cs n sr (n div sr) = Inl IndexError" for cs
    by (rule subgrids_fails[OF sr(2,3) len])
  have nsz: "\<not> sz < 1" using assms by simp
  show ?thesis
    unfolding initialize_structures_def Let_def n_def[symmetric]
    by (simp only: nsz if_False sr(1) boxes sum.case cong: sum.case_cong)
qed

lemma map_of_map_key: "s \<in> set xs \<Longrightarrow> map_of (map (\<lambda>s. (s, f s)) xs) s = Some (f s)"
  by (induction xs) auto

lemma map_of_map_key_dom: "map_of (map (\<lambda>s. (s, f s)) xs) s = Some v \<Longrightarrow> s \<in> set xs \<and> v = f s"
  by (induction xs) (auto split: if_splits)

lemma length_box_units: "length (box_units rs cs sr sc) = sr * sc"
  by (simp add: box_units_def mult.commute)

lemma initialize_structures_range:
  assumes "initialize_structures sz = Inr m"
  shows "1 \<le> sz \<and> sz \<le> 26"
proof -
  have "\<not> sz < 1" using assms by (auto simp: initialize_structures_def)
  moreover have "\<not> 26 < sz"
    using assms initialize_structures_large[of sz] by (auto split: sum.splits)
  ultimately show ?thesis by simp
qed

lemma units_count:
  assumes "distinct rs" "distinct cs" "length rs = n" "length cs = n"
    "0 < sr" "sr * sc = n" "s \<in> set (cross (chars_of rs) cs)"
  shows "length (filter (\<lambda>u. s \<in> set u) (unitlist_of rs cs sr sc)) = 3"
proof -
  obtain r0 c0 where s: "s = r0 # c0" "r0 \<in> set rs" "c0 \<in> set cs"
    using assms(7) by (auto simp: set_cross_cells)
  obtain a b where ab: "a < n" "b < n" "r0 = rs ! a" "c0 = cs ! b"
    using s assms(3,4) by (metis in_set_conv_nth)
  have "length (filter (\<lambda>u. s \<in> set u) (box_units rs cs sr sc)) = 1"
    unfolding s ab by (rule box_units_count[OF assms(1-6) ab(1,2)])
  moreover have "length (filter (\<lambda>u. s \<in> set u) (map (\<lambda>c. map (\<lambda>r. r @ c) (chars_of rs)) cs)) = 1"
    unfolding s(1) by (rule col_units_count[OF assms(2) s(2,3)])
  moreover have "length (filter (\<lambda>u. s \<in> set u) (map (\<lambda>r. map (\<lambda>c. r @ c) cs) (chars_of rs))) = 1"
    unfolding s(1) by (rule row_units_count[OF assms(1) s(2,3)])
  ultimately show ?thesis by (simp add: unitlist_of_def)
qed

lemma peers_9:
  "list_all (\<lambda>(s, ps). distinct ps \<and> length ps = 20)
     (make_peers (cross (chars_of (take 9 alphabet)) (cols_of 9))
        (unitlist_of (take 9 alphabet) (cols_of 9) 3 3))"
  by code_simp

lemma subgrid_rows_9: "subgrid_rows_loop 9 (int_sqrt 9) = Inr 3"
  by code_simp

lemma initialize_structures_fields:
  assumes "initialize_structures sz = Inr m"
  shows "rows m = take (nat sz) alphabet" "cols m = cols_of (nat sz)"
    "squares m = cross (chars_of (rows m)) (cols m)"
    "units m = make_units (squares m) (unitlist m)"
    "peers m = make_peers (squares m) (unitlist m)"
  using assms unfolding initialize_structures_def Let_def cols_of_def
  by (auto split: if_splits sum.splits)

lemma box_cells_product:
  "box_cells rs cs sr sc i j
     = map (\<lambda>(x, y). rs ! (i + x) # cs ! (j + y)) (List.product [0..<sr] [0..<sc])"
  by (simp add: box_cells_def product_concat_map map_concat comp_def)

lemma distinct_box_cells:
  assumes "distinct rs" "distinct cs" "i + sr \<le> length rs" "j + sc \<le> length cs"
  shows "distinct (box_cells rs cs sr sc i j)"
  unfolding box_cells_product
proof (rule iffD2[OF distinct_map], intro conjI)
  show "distinct (List.product [0..<sr] [0..<sc])" by (simp add: distinct_product)
  show "inj_on (\<lambda>(x, y). rs ! (i + x) # cs ! (j + y)) (set (List.product [0..<sr] [0..<sc]))"
  proof (rule inj_onI)
    fix p q
    assume p: "p \<in> set (List.product [0..<sr] [0..<sc])"
      and q: "q \<in> set (List.product [0..<sr] [0..<sc])"
      and eq: "(case p of (x, y) \<Rightarrow> rs ! (i + x) # cs ! (j + y))
             = (case q of (x, y) \<Rightarrow> rs ! (i + x) # cs ! (j + y))"
    obtain x y where pxy: "p = (x, y)" by (cases p)
    obtain x' y' where qxy: "q = (x', y')" by (cases q)
    have b: "x < sr" "y < sc" "x' < sr" "y' < sc" using p q pxy qxy by auto
    have "rs ! (i + x) = rs ! (i + x')" "cs ! (j + y) = cs ! (j + y')"
      using eq pxy qxy by auto
    then have "i + x = i + x'" "j + y = j + y'"
      using assms b by (auto simp: nth_eq_iff_index_eq)
    then show "p = q" using pxy qxy by simp
  qed
qed

lemma length_box_cells: "length (box_cells rs cs sr sc i j) = sr * sc"
  by (simp add: box_cells_product)

lemma box_cells_subset:
  assumes "i + sr \<le> length rs" "j + sc \<le> length cs"
  shows "set (box_cells rs cs sr sc i j) \<subseteq> set (cross (chars_of rs) cs)"
proof
  fix s assume "s \<in> set (box_cells rs cs sr sc i j)"
  then obtain x y where xy: "x < sr" "y < sc" "s = rs ! (i + x) # cs ! (j + y)"
    unfolding set_box_cells by blast
  then have "rs ! (i + x) \<in> set rs" "cs ! (j + y) \<in> set cs" using assms by auto
  then show "s \<in> set (cross (chars_of rs) cs)" unfolding set_cross_cells using xy(3) by blast
qed

lemma unitlist_of_facts:
  assumes "distinct rs" "distinct cs" "length rs = n" "length cs = n"
    "0 < sr" "sr * sc = n" "u \<in> set (unitlist_of rs cs sr sc)"
  shows "distinct u \<and> length u = n \<and> set u \<subseteq> set (cross (chars_of rs) cs)"
proof -
  consider (col) c where "c \<in> set cs" "u = map (\<lambda>r. r @ c) (chars_of rs)"
    | (row) r where "r \<in> set rs" "u = map (\<lambda>c. [r] @ c) cs"
    | (box) ki kj where "ki < sc" "kj < sr" "u = box_cells rs cs sr sc (ki * sr) (kj * sc)"
    using assms(7) unfolding unitlist_of_def box_units_def chars_of_def by auto
  then show ?thesis
  proof cases
    case col
    have "u = map (\<lambda>r. r # c) rs" using col(2) by (simp add: chars_of_def comp_def)
    moreover have "distinct (map (\<lambda>r. r # c) rs)"
      using assms(1) by (simp add: distinct_map inj_on_def)
    moreover have "set (map (\<lambda>r. r # c) rs) \<subseteq> set (cross (chars_of rs) cs)"
      unfolding set_cross_cells using col(1) by auto
    ultimately show ?thesis using assms(3) by simp
  next
    case row
    have "u = map (\<lambda>c. r # c) cs" using row(2) by simp
    moreover have "distinct (map (\<lambda>c. r # c) cs)"
      using assms(2) by (simp add: distinct_map inj_on_def)
    moreover have "set (map (\<lambda>c. r # c) cs) \<subseteq> set (cross (chars_of rs) cs)"
      unfolding set_cross_cells using row(1) by auto
    ultimately show ?thesis using assms(4) by simp
  next
    case box
    have le1: "ki * sr + sr \<le> length rs"
    proof -
      have "Suc ki * sr \<le> sc * sr" using box(1) by (intro mult_le_mono1) simp
      then show ?thesis using assms by (simp add: algebra_simps)
    qed
    have le2: "kj * sc + sc \<le> length cs"
    proof -
      have "Suc kj * sc \<le> sr * sc" using box(2) by (intro mult_le_mono1) simp
      then show ?thesis using assms by (simp add: algebra_simps)
    qed
    show ?thesis unfolding box(3)
      using distinct_box_cells[OF assms(1,2) le1 le2] box_cells_subset[OF le1 le2]
        length_box_cells[of rs cs sr sc] assms(6) by simp
  qed
qed

lemma d9: "distinct (map (\<lambda>i. str (i + 1)) [0..<9] @ map (\<lambda>i. [char_of (65 + i)]) [0..<17])"
  by code_simp

lemma upt_take: "k \<le> m \<Longrightarrow> [0..<k] = take k [0..<m]"
  by simp

lemma make_digits_take:
  assumes "n \<le> 26" "make_digits n = Inr ds"
  shows "ds = take n (map (\<lambda>i. str (i + 1)) [0..<9] @ map (\<lambda>i. [char_of (65 + i)]) [0..<17])"
proof (cases "n > 9")
  case True
  then have ds: "ds = map (\<lambda>i. str (i + 1)) [0..<9] @ map (\<lambda>i. [char_of (65 + i)]) [0..<n - 9]"
    using assms(1,2) unfolding make_digits_def Let_def by (simp add: min_def split: if_splits)
  have "n - 9 \<le> 17" using assms(1) by simp
  then have "[0..<n - 9] = take (n - 9) [0..<17]" by (rule upt_take)
  then have "map (\<lambda>i. [char_of (65 + i)]) [0..<n - 9] = take (n - 9) (map (\<lambda>i. [char_of (65 + i)]) [0..<17])"
    by (simp only: take_map)
  moreover have "length (map (\<lambda>i. str (i + 1)) [0..<9]) = 9" by simp
  ultimately show ?thesis using True unfolding ds by (simp only: take_append take_all)
next
  case False
  then have ds: "ds = map (\<lambda>i. str (i + 1)) [0..<n]"
    using assms(2) unfolding make_digits_def Let_def by (simp add: min_def split: if_splits)
  have "n \<le> 9" using False by simp
  then have "[0..<n] = take n [0..<9]" by (rule upt_take)
  then have "map (\<lambda>i. str (i + 1)) [0..<n] = take n (map (\<lambda>i. str (i + 1)) [0..<9])"
    by (simp only: take_map)
  then show ?thesis using \<open>n \<le> 9\<close> unfolding ds by (simp only: take_append) simp
qed

lemma make_digits_distinct:
  assumes "n \<le> 26" "make_digits n = Inr ds"
  shows "distinct ds"
  unfolding make_digits_take[OF assms] by (rule distinct_take[OF d9])

lemma make_peers_lookup:
  assumes "s \<in> set sqs"
  shows "\<exists>ps. map_of (make_peers sqs ul) s = Some ps \<and> distinct ps
           \<and> set ps = {p. p \<noteq> s \<and> (\<exists>u \<in> set ul. s \<in> set u \<and> p \<in> set u)}"
proof -
  let ?ps = "removeAll s (remdups (concat (filter (\<lambda>u. s \<in> set u) ul)))"
  have "map_of (make_peers sqs ul) s = Some ?ps"
    unfolding make_peers_def
    by (rule map_of_map_key[OF assms, of "\<lambda>s. removeAll s (remdups (concat (filter (\<lambda>u. s \<in> set u) ul)))"])
  moreover have "distinct ?ps" by (simp add: distinct_removeAll)
  moreover have "set ?ps = {p. p \<noteq> s \<and> (\<exists>u \<in> set ul. s \<in> set u \<and> p \<in> set u)}"
    by auto
  ultimately show ?thesis by blast
qed

subsection \<open>Units and peers\<close>

text \<open>
  Claim C4. Whenever the builder accepts a board size \<open>N\<close>, the unit list is the
  \<open>N\<close> column units, then the \<open>N\<close> row units, then the \<open>N\<close> subgrid units that
  the subgrid loop produces, \<open>3 * N\<close> entries in all, each of them \<open>N\<close> distinct cells
  of the board. Every cell lies in exactly one column unit, exactly one row unit and
  exactly one subgrid unit; \<open>units[s]\<close> is the list of the entries of the unit list that
  contain \<open>s\<close>, and it has exactly three entries. \<open>peers[s]\<close> is the set of the cells
  other than \<open>s\<close> that share a unit with \<open>s\<close>, and for \<open>N = 9\<close> it has exactly 20
  elements.

  Units are counted as entries of the unit list. (When the subgrid row count is 1, as for
  \<open>N = 1\<close> and for a prime \<open>N\<close>, a subgrid unit is a whole row, so it lists the same
  cells as the row unit.)
\<close>

theorem unit_structure:
  assumes "initialize_structures sz = Inr m"
  shows "length (rows m) = nat sz \<and> length (cols m) = nat sz
       \<and> squares m = cross (chars_of (rows m)) (cols m)
       \<and> (\<exists>boxes. subgrids (rows m) (cols m) (nat sz) (subgrid_rows m) (subgrid_cols m) = Inr boxes
            \<and> length boxes = nat sz
            \<and> unitlist m = map (\<lambda>c. map (\<lambda>r. r @ c) (chars_of (rows m))) (cols m)
                          @ map (\<lambda>r. map (\<lambda>c. r @ c) (cols m)) (chars_of (rows m))
                          @ boxes
            \<and> (\<forall>s \<in> set (squares m).
                  length (filter (\<lambda>u. s \<in> set u)
                            (map (\<lambda>c. map (\<lambda>r. r @ c) (chars_of (rows m))) (cols m))) = 1
                  \<and> length (filter (\<lambda>u. s \<in> set u)
                            (map (\<lambda>r. map (\<lambda>c. r @ c) (cols m)) (chars_of (rows m)))) = 1
                  \<and> length (filter (\<lambda>u. s \<in> set u) boxes) = 1))
       \<and> length (unitlist m) = 3 * nat sz
       \<and> (\<forall>u \<in> set (unitlist m). distinct u \<and> length u = nat sz \<and> set u \<subseteq> set (squares m))
       \<and> (\<forall>s \<in> set (squares m).
             map_of (units m) s = Some (filter (\<lambda>u. s \<in> set u) (unitlist m))
             \<and> length (filter (\<lambda>u. s \<in> set u) (unitlist m)) = 3)
       \<and> (\<forall>s \<in> set (squares m).
             \<exists>ps. map_of (peers m) s = Some ps \<and> distinct ps
               \<and> set ps = {p. p \<noteq> s \<and> (\<exists>u \<in> set (unitlist m). s \<in> set u \<and> p \<in> set u)}
               \<and> (sz = 9 \<longrightarrow> length ps = 20))"
proof -
  define n where "n = nat sz"
  have range: "1 \<le> sz" "sz \<le> 26" using initialize_structures_range[OF assms] by simp_all
  then have n: "0 < n" "n \<le> 26" by (auto simp: n_def)
  define rs where "rs = take n alphabet"
  define cs where "cs = cols_of n"
  define sqs where "sqs = cross (chars_of rs) cs"
  obtain sr sc ds where sr: "0 < sr" "sr * sc = n" "length ds = n"
    and m: "m = \<lparr> rows = rs, cols = cs, squares = sqs, unitlist = unitlist_of rs cs sr sc,
             units = make_units sqs (unitlist_of rs cs sr sc),
             peers = make_peers sqs (unitlist_of rs cs sr sc),
             subgrid_rows = sr, subgrid_cols = sc, digits = ds \<rparr>"
    using initialize_structures_form[OF range] assms unfolding n_def rs_def cs_def sqs_def
    by (metis sum.inject(2))
  have len: "length rs = n" "length cs = n"
    using n by (simp_all add: rs_def cs_def length_alphabet cols_of_def)
  have dist: "distinct rs" "distinct cs"
    using n by (simp_all add: rs_def cs_def distinct_alphabet distinct_cols_of)
  have c1: "length (rows m) = nat sz \<and> length (cols m) = nat sz"
    using len by (simp add: m n_def)
  have c1': "squares m = cross (chars_of (rows m)) (cols m)"
    by (simp add: m sqs_def)
  have cnt: "length (filter (\<lambda>u. s \<in> set u) (map (\<lambda>c. map (\<lambda>r. r @ c) (chars_of rs)) cs)) = 1
           \<and> length (filter (\<lambda>u. s \<in> set u) (map (\<lambda>r. map (\<lambda>c. r @ c) cs) (chars_of rs))) = 1
           \<and> length (filter (\<lambda>u. s \<in> set u) (box_units rs cs sr sc)) = 1"
    if s: "s \<in> set sqs" for s
  proof -
    obtain r0 c0 where s0: "s = r0 # c0" "r0 \<in> set rs" "c0 \<in> set cs"
      using s by (auto simp: sqs_def set_cross_cells)
    obtain a b where ab: "a < n" "b < n" "r0 = rs ! a" "c0 = cs ! b"
      using s0 len by (metis in_set_conv_nth)
    have "length (filter (\<lambda>u. s \<in> set u) (box_units rs cs sr sc)) = 1"
      unfolding s0 ab by (rule box_units_count[OF dist len sr(1,2) ab(1,2)])
    moreover have "length (filter (\<lambda>u. s \<in> set u) (map (\<lambda>c. map (\<lambda>r. r @ c) (chars_of rs)) cs)) = 1"
      unfolding s0(1) by (rule col_units_count[OF dist(2) s0(2,3)])
    moreover have "length (filter (\<lambda>u. s \<in> set u) (map (\<lambda>r. map (\<lambda>c. r @ c) cs) (chars_of rs))) = 1"
      unfolding s0(1) by (rule row_units_count[OF dist(1) s0(2,3)])
    ultimately show ?thesis by simp
  qed
  have boxes: "subgrids rs cs n sr sc = Inr (box_units rs cs sr sc)"
    by (rule subgrids_ok[OF sr(1,2) len n(1)])
  have c2: "\<exists>boxes. subgrids (rows m) (cols m) (nat sz) (subgrid_rows m) (subgrid_cols m) = Inr boxes
            \<and> length boxes = nat sz
            \<and> unitlist m = map (\<lambda>c. map (\<lambda>r. r @ c) (chars_of (rows m))) (cols m)
                          @ map (\<lambda>r. map (\<lambda>c. r @ c) (cols m)) (chars_of (rows m))
                          @ boxes
            \<and> (\<forall>s \<in> set (squares m).
                  length (filter (\<lambda>u. s \<in> set u)
                            (map (\<lambda>c. map (\<lambda>r. r @ c) (chars_of (rows m))) (cols m))) = 1
                  \<and> length (filter (\<lambda>u. s \<in> set u)
                            (map (\<lambda>r. map (\<lambda>c. r @ c) (cols m)) (chars_of (rows m)))) = 1
                  \<and> length (filter (\<lambda>u. s \<in> set u) boxes) = 1)"
  proof (intro exI[of _ "box_units rs cs sr sc"] conjI ballI)
    show "subgrids (rows m) (cols m) (nat sz) (subgrid_rows m) (subgrid_cols m)
            = Inr (box_units rs cs sr sc)"
      using boxes by (simp add: m n_def)
    show "length (box_units rs cs sr sc) = nat sz"
      using sr(2) by (simp add: length_box_units n_def)
    show "unitlist m = map (\<lambda>c. map (\<lambda>r. r @ c) (chars_of (rows m))) (cols m)
                          @ map (\<lambda>r. map (\<lambda>c. r @ c) (cols m)) (chars_of (rows m))
                          @ box_units rs cs sr sc"
      by (simp add: m unitlist_of_def)
  next
    fix s assume "s \<in> set (squares m)"
    then have s: "s \<in> set sqs" by (simp add: m)
    show "length (filter (\<lambda>u. s \<in> set u)
                            (map (\<lambda>c. map (\<lambda>r. r @ c) (chars_of (rows m))) (cols m))) = 1"
      using cnt[OF s] by (simp add: m)
    show "length (filter (\<lambda>u. s \<in> set u)
                            (map (\<lambda>r. map (\<lambda>c. r @ c) (cols m)) (chars_of (rows m)))) = 1"
      using cnt[OF s] by (simp add: m)
    show "length (filter (\<lambda>u. s \<in> set u) (box_units rs cs sr sc)) = 1"
      using cnt[OF s] by simp
  qed
  have c3: "length (unitlist m) = 3 * nat sz"
    using sr(2) len by (simp add: m unitlist_of_def length_box_units chars_of_def n_def)
  have c3': "\<forall>u \<in> set (unitlist m). distinct u \<and> length u = nat sz \<and> set u \<subseteq> set (squares m)"
  proof
    fix u assume "u \<in> set (unitlist m)"
    then have "u \<in> set (unitlist_of rs cs sr sc)" by (simp add: m)
    from unitlist_of_facts[OF dist len sr(1,2) this]
    show "distinct u \<and> length u = nat sz \<and> set u \<subseteq> set (squares m)"
      by (simp add: m sqs_def n_def)
  qed
  have c4: "\<forall>s \<in> set (squares m).
             map_of (units m) s = Some (filter (\<lambda>u. s \<in> set u) (unitlist m))
             \<and> length (filter (\<lambda>u. s \<in> set u) (unitlist m)) = 3"
  proof
    fix s assume "s \<in> set (squares m)"
    then have s: "s \<in> set sqs" by (simp add: m)
    have "map_of (units m) s = Some (filter (\<lambda>u. s \<in> set u) (unitlist_of rs cs sr sc))"
      using map_of_map_key[OF s] by (simp add: m make_units_def)
    moreover have "length (filter (\<lambda>u. s \<in> set u) (unitlist_of rs cs sr sc)) = 3"
      using units_count[OF dist len sr(1,2)] s by (simp add: sqs_def)
    ultimately show "map_of (units m) s = Some (filter (\<lambda>u. s \<in> set u) (unitlist m))
             \<and> length (filter (\<lambda>u. s \<in> set u) (unitlist m)) = 3" by (simp add: m)
  qed
  have c5: "\<forall>s \<in> set (squares m).
             \<exists>ps. map_of (peers m) s = Some ps \<and> distinct ps
               \<and> set ps = {p. p \<noteq> s \<and> (\<exists>u \<in> set (unitlist m). s \<in> set u \<and> p \<in> set u)}
               \<and> (sz = 9 \<longrightarrow> length ps = 20)"
  proof
    fix s assume "s \<in> set (squares m)"
    then have s: "s \<in> set sqs" by (simp add: m)
    obtain ps where ps: "map_of (make_peers sqs (unitlist_of rs cs sr sc)) s = Some ps" "distinct ps"
      "set ps = {p. p \<noteq> s \<and> (\<exists>u \<in> set (unitlist_of rs cs sr sc). s \<in> set u \<and> p \<in> set u)}"
      using make_peers_lookup[OF s] by blast
    have "length ps = 20" if "sz = 9"
    proof -
      have n9: "n = 9" using that by (simp add: n_def)
      have "subgrid_rows_loop 9 (int_sqrt 9) = Inr sr"
        using assms range unfolding that initialize_structures_def Let_def
        by (auto simp: m split: sum.splits)
      then have sr3: "sr = 3" using subgrid_rows_9 by simp
      then have sc3: "sc = 3" using sr(2) n9 by simp
      have "(s, ps) \<in> set (make_peers sqs (unitlist_of rs cs sr sc))"
        using ps(1) by (rule map_of_SomeD)
      then show ?thesis
        using peers_9 unfolding sqs_def rs_def cs_def n9 sr3 sc3 by (auto simp: list_all_iff)
    qed
    then show "\<exists>ps. map_of (peers m) s = Some ps \<and> distinct ps
               \<and> set ps = {p. p \<noteq> s \<and> (\<exists>u \<in> set (unitlist m). s \<in> set u \<and> p \<in> set u)}
               \<and> (sz = 9 \<longrightarrow> length ps = 20)"
      using ps by (intro exI[of _ ps]) (simp add: m)
  qed
  show ?thesis using c1 c1' c2 c3 c3' c4 c5 by blast
qed

text \<open>The board of size 9, at the cell \<open>C2\<close>.\<close>

theorem unit_structure_witness:
  "\<exists>m. initialize_structures 9 = Inr m \<and> length (unitlist m) = 27
      \<and> map_of (units m) ''C2'' = Some (filter (\<lambda>u. ''C2'' \<in> set u) (unitlist m))
      \<and> length (filter (\<lambda>u. ''C2'' \<in> set u) (unitlist m)) = 3
      \<and> (\<exists>ps. map_of (peers m) ''C2'' = Some ps \<and> distinct ps \<and> length ps = 20
            \<and> set ps = {p. p \<noteq> ''C2'' \<and> (\<exists>u \<in> set (unitlist m). ''C2'' \<in> set u \<and> p \<in> set u)})"
proof -
  obtain m where m: "initialize_structures 9 = Inr m"
    by (rule initialize_structures_form[of 9]) auto
  have "squares m = cross (chars_of (take 9 alphabet)) (cols_of 9)"
    using initialize_structures_fields[OF m] by simp
  moreover have "''C2'' \<in> set (cross (chars_of (take 9 alphabet)) (cols_of 9))"
    by code_simp
  ultimately have s: "''C2'' \<in> set (squares m)" by simp
  have u: "length (unitlist m) = 3 * nat 9
       \<and> (\<forall>s \<in> set (squares m).
             map_of (units m) s = Some (filter (\<lambda>u. s \<in> set u) (unitlist m))
             \<and> length (filter (\<lambda>u. s \<in> set u) (unitlist m)) = 3)
       \<and> (\<forall>s \<in> set (squares m).
             \<exists>ps. map_of (peers m) s = Some ps \<and> distinct ps
               \<and> set ps = {p. p \<noteq> s \<and> (\<exists>u \<in> set (unitlist m). s \<in> set u \<and> p \<in> set u)}
               \<and> ((9::int) = 9 \<longrightarrow> length ps = 20))"
    using unit_structure[OF m] by blast
  from u s obtain ps where "map_of (peers m) ''C2'' = Some ps" "distinct ps" "length ps = 20"
     "set ps = {p. p \<noteq> ''C2'' \<and> (\<exists>u \<in> set (unitlist m). ''C2'' \<in> set u \<and> p \<in> set u)}"
    by auto
  moreover have "length (unitlist m) = 27" using u by simp
  moreover have "map_of (units m) ''C2'' = Some (filter (\<lambda>u. ''C2'' \<in> set u) (unitlist m))
      \<and> length (filter (\<lambda>u. ''C2'' \<in> set u) (unitlist m)) = 3" using u s by blast
  ultimately show ?thesis using m by blast
qed

subsection \<open>Which sizes the builder rejects\<close>

text \<open>
  Claim C10 states that construction fails exactly for \<open>N < 1\<close> or for an \<open>N\<close> without
  a subgrid factorization, and returns the model for every other \<open>N\<close>. The size 27 is
  not below 1, the builder's own divisor search finds the factorization \<open>3 * 9\<close> for it,
  and the digit alphabet (\<open>1-9\<close>, then letters, "for larger sizes") is built for it
  without error; yet construction raises \<open>IndexError\<close> instead of returning the model:
  the row labels are the 26 letters, silently cut by the slice, and the subgrid loop reads
  \<open>rows[26]\<close>.
\<close>

theorem builder_rejects_27:
  "initialize_structures 27 = Inl IndexError
   \<and> \<not> (27::int) < 1
   \<and> subgrid_rows_loop 27 (int_sqrt 27) = Inr 3 \<and> (3::nat) * 9 = 27
   \<and> (\<exists>ds. make_digits 27 = Inr ds \<and> length ds = 27)"
proof -
  have "make_digits 27 = Inr (map (\<lambda>i. str (i + 1)) [0..<9] @ map (\<lambda>i. [char_of (65 + i)]) [0..<18])"
    by (simp add: make_digits_def Let_def)
  moreover have "subgrid_rows_loop 27 (int_sqrt 27) = Inr 3"
    by code_simp
  ultimately show ?thesis using initialize_structures_large[of 27] by simp
qed

text \<open>
  On the sizes up to 26 the builder does what claim C10 says: it raises \<open>ValueError\<close>
  exactly when \<open>N < 1\<close>, and for every \<open>N\<close> from 1 to 26 it returns the model, whose
  subgrid dimensions \<open>r\<close> and \<open>c\<close> satisfy \<open>r * c = N\<close> (the search for \<open>r\<close> ends at 1
  at the latest, so every such size has a factorization).
\<close>

theorem builder_errors:
  assumes "sz \<le> 26"
  shows "(initialize_structures sz = Inl ValueError \<longleftrightarrow> sz < 1)
       \<and> ((\<exists>m. initialize_structures sz = Inr m \<and> 0 < subgrid_rows m
               \<and> subgrid_rows m * subgrid_cols m = nat sz) \<longleftrightarrow> 1 \<le> sz)"
proof (cases "sz < 1")
  case True
  then show ?thesis by (simp add: initialize_structures_def)
next
  case False
  then have range: "1 \<le> sz" "sz \<le> 26" using assms by simp_all
  have "\<exists>m. initialize_structures sz = Inr m \<and> 0 < subgrid_rows m
               \<and> subgrid_rows m * subgrid_cols m = nat sz"
    by (rule initialize_structures_form[OF range]) simp
  then show ?thesis using False by auto
qed

theorem builder_errors_witness:
  "initialize_structures 0 = Inl ValueError
   \<and> (\<exists>m. initialize_structures 6 = Inr m \<and> 0 < subgrid_rows m
          \<and> subgrid_rows m * subgrid_cols m = 6)"
  using builder_errors[of 0] builder_errors[of 6] by simp

section \<open>sudo.py: constraint propagation and exact search\<close>

text \<open>
  A candidate-set assignment (\<open>values\<close>) is a dictionary from cells to lists of
  candidate digits, here an association list. The functions below mutate the dictionary
  they are given and return it, or \<open>False\<close>; the model returns the updated dictionary.
  (A caller that receives \<open>False\<close> or an exception never reads the dictionary again:
  \<open>parse_grid\<close> returns \<open>False\<close>, and \<open>search\<close> works on a copy.)

  The argument \<open>peers\<close> is only ever subscripted and the result iterated, so it is
  modelled by the function \<open>prs\<close> that gives, for a cell, the peers in the order of
  iteration, or the exception the subscript raises.
\<close>

type_synonym "values" = "(cell \<times> digit list) list"

text \<open>
  The number of candidates left in an assignment, the measure by which propagation and
  search terminate.
\<close>

definition total :: "values \<Rightarrow> nat" where
  "total vs = sum_list (map (\<lambda>(s, ds). length ds) vs)"

text \<open>
  \<open>eliminate(values, s, d, peers)\<close>: nothing to do when \<open>d\<close> is not a candidate of
  \<open>s\<close>; otherwise \<open>d\<close> is removed, an empty candidate list is a contradiction
  (\<open>False\<close>), and a candidate list of length one has its digit eliminated from every
  peer of \<open>s\<close> (\<open>eliminate_peers\<close> is that \<open>for\<close> loop). There is no further rule in
  this function.
\<close>

function eliminate :: "(cell \<Rightarrow> error + cell list) \<Rightarrow> values \<Rightarrow> cell \<Rightarrow> digit \<Rightarrow> values outcome"
  and eliminate_peers :: "(cell \<Rightarrow> error + cell list) \<Rightarrow> values \<Rightarrow> cell list \<Rightarrow> digit \<Rightarrow> values outcome"
where
  "eliminate prs vs s d =
     (case map_of vs s of
        None \<Rightarrow> Raises KeyError
      | Some ds \<Rightarrow>
          if d \<notin> set ds then Returns vs
          else
            let ds' = remove1 d ds; vs' = AList.update s ds' vs in
            if length ds' = 0 then PyFalse
            else if length ds' = 1 then
              (case prs s of
                 Inl e \<Rightarrow> Raises e
               | Inr ps \<Rightarrow> eliminate_peers prs vs' ps (ds' ! 0))
            else Returns vs')"
| "eliminate_peers prs vs [] d2 = Returns vs"
| "eliminate_peers prs vs (s2 # rest) d2 =
     (case eliminate prs vs s2 d2 of
        Returns vs' \<Rightarrow> eliminate_peers prs vs' rest d2
      | PyFalse \<Rightarrow> PyFalse
      | Raises e \<Rightarrow> Raises e)"
  by pat_completeness auto

lemma total_update:
  "map_of vs s = Some ds \<Longrightarrow> d \<in> set ds \<Longrightarrow> total (AList.update s (remove1 d ds) vs) < total vs"
proof (induction vs)
  case Nil then show ?case by simp
next
  case (Cons p vs)
  obtain k v where p: "p = (k, v)" by (cases p)
  show ?case
  proof (cases "k = s")
    case True
    with Cons.prems p have "v = ds" by simp
    with True p Cons.prems show ?thesis
      using length_pos_if_in_set[of d ds] by (auto simp: total_def length_remove1)
  next
    case False
    with Cons p show ?thesis by (auto simp: total_def)
  qed
qed

lemma eliminate_total:
  "eliminate_eliminate_peers_dom (Inl (prs, vs, s, d)) \<Longrightarrow>
     eliminate prs vs s d = Returns vs' \<Longrightarrow> total vs' \<le> total vs"
  "eliminate_eliminate_peers_dom (Inr (prs, vs, ss, d2)) \<Longrightarrow>
     eliminate_peers prs vs ss d2 = Returns vs' \<Longrightarrow> total vs' \<le> total vs"
proof (induction prs vs s d and prs vs ss d2 arbitrary: vs' and vs'
        rule: eliminate_eliminate_peers.pinduct)
  case (1 prs vs s d)
  show ?case
  proof (cases "map_of vs s")
    case None
    with 1 show ?thesis by (simp add: eliminate.psimps)
  next
    case (Some ds)
    show ?thesis
    proof (cases "d \<in> set ds")
      case False
      with 1 Some show ?thesis by (simp add: eliminate.psimps)
    next
      case True
      note lt = total_update[OF Some True]
      show ?thesis
      proof (cases "length (remove1 d ds) = 1")
        case False
        with 1(1,3) Some True lt show ?thesis
          by (auto simp: eliminate.psimps Let_def split: if_splits)
      next
        case one: True
        then have ne: "\<not> length (remove1 d ds) = 0" by simp
        from 1(1,3) Some True one obtain ps where ps: "prs s = Inr ps"
          and r: "eliminate_peers prs (AList.update s (remove1 d ds) vs) ps (remove1 d ds ! 0)
                    = Returns vs'"
          by (auto simp: eliminate.psimps Let_def split: if_splits sum.splits)
        have "total vs' \<le> total (AList.update s (remove1 d ds) vs)"
          using 1(2)[OF Some _ refl refl ne one ps r] True by simp
        with lt show ?thesis by simp
      qed
    qed
  qed
next
  case (2 prs vs d2)
  then show ?case by (simp add: eliminate_peers.psimps)
next
  case (3 prs vs s2 rest d2)
  from 3(1,4) obtain v1 where v1: "eliminate prs vs s2 d2 = Returns v1"
    and r: "eliminate_peers prs v1 rest d2 = Returns vs'"
    by (auto simp: eliminate_peers.psimps split: outcome.splits)
  from 3(2)[OF v1] 3(3)[OF v1 r] show ?case by simp
qed

termination eliminate
  by (relation "inv_image (less_than <*lex*> less_than)
        (\<lambda>x. case x of Inl (prs, vs, s, d) \<Rightarrow> (total vs, 0)
                     | Inr (prs, vs, ss, d2) \<Rightarrow> (total vs, Suc (length ss)))")
     (auto simp: total_update dest!: eliminate_total(1))

text \<open>
  \<open>assign(values, s, d, peers)\<close>: eliminate from \<open>s\<close> every candidate other than
  \<open>d\<close>; \<open>assign_loop\<close> is its \<open>for\<close> loop over \<open>other_values\<close>.
\<close>

fun assign_loop :: "(cell \<Rightarrow> error + cell list) \<Rightarrow> values \<Rightarrow> cell \<Rightarrow> digit list \<Rightarrow> values outcome" where
  "assign_loop prs vs s [] = Returns vs"
| "assign_loop prs vs s (d2 # rest) =
     (case eliminate prs vs s d2 of
        Returns vs' \<Rightarrow> assign_loop prs vs' s rest
      | PyFalse \<Rightarrow> PyFalse
      | Raises e \<Rightarrow> Raises e)"

definition assign :: "(cell \<Rightarrow> error + cell list) \<Rightarrow> values \<Rightarrow> cell \<Rightarrow> digit \<Rightarrow> values outcome" where
  "assign prs vs s d =
     (case map_of vs s of
        None \<Rightarrow> Raises KeyError
      | Some ds \<Rightarrow> assign_loop prs vs s (filter (\<lambda>v. v \<noteq> d) ds))"

text \<open>
  The dictionary \<open>peers\<close> of a model as the argument of \<open>assign\<close>: subscripting
  raises \<open>KeyError\<close> for a key that is absent, and the set found is iterated in the order
  \<open>ito\<close> (Python fixes no order for the elements of a set).
\<close>

definition peers_lookup :: "(cell list \<Rightarrow> cell list) \<Rightarrow> structures \<Rightarrow> cell \<Rightarrow> error + cell list" where
  "peers_lookup ito m s =
     (case map_of (peers m) s of None \<Rightarrow> Inl KeyError | Some ps \<Rightarrow> Inr (ito ps))"

text \<open>
  \<open>all(len(values[s]) == 1 for s in squares)\<close>, which stops at the first cell that is
  not decided, and the list \<open>(len(values[s]), s) for s in squares if len(values[s]) > 1\<close>.
\<close>

fun all_single :: "values \<Rightarrow> cell list \<Rightarrow> error + bool" where
  "all_single vs [] = Inr True"
| "all_single vs (s # rest) =
     (case map_of vs s of
        None \<Rightarrow> Inl KeyError
      | Some ds \<Rightarrow> if length ds = 1 then all_single vs rest else Inr False)"

fun unsolved :: "values \<Rightarrow> cell list \<Rightarrow> error + (nat \<times> cell) list" where
  "unsolved vs [] = Inr []"
| "unsolved vs (s # rest) =
     (case map_of vs s of
        None \<Rightarrow> Inl KeyError
      | Some ds \<Rightarrow>
          (case unsolved vs rest of
             Inl e \<Rightarrow> Inl e
           | Inr cs \<Rightarrow> Inr (if length ds > 1 then (length ds, s) # cs else cs)))"

text \<open>
  \<open>min\<close> of a sequence of pairs of a number and a string: pairs are compared
  lexicographically, strings by code points; \<open>min\<close> of an empty sequence raises
  \<open>ValueError\<close>.
\<close>

fun str_less :: "string \<Rightarrow> string \<Rightarrow> bool" where
  "str_less [] [] = False"
| "str_less [] (b # bs) = True"
| "str_less (a # as) [] = False"
| "str_less (a # as) (b # bs) =
     ((of_char a :: nat) < of_char b \<or> (a = b \<and> str_less as bs))"

fun pair_less :: "nat \<times> string \<Rightarrow> nat \<times> string \<Rightarrow> bool" where
  "pair_less (n, s) (m, t) = (n < m \<or> (n = m \<and> str_less s t))"

fun py_min :: "(nat \<times> string) list \<Rightarrow> error + (nat \<times> string)" where
  "py_min [] = Inl ValueError"
| "py_min (x # xs) = Inr (fold (\<lambda>y m. if pair_less y m then y else m) xs x)"

text \<open>
  \<open>search(values, size)\<close>; \<open>None\<close> stands for the argument \<open>False\<close>. The loop over
  the candidates of the chosen cell is \<open>search_loop\<close>; each round assigns in a copy of
  \<open>values\<close>, so every round starts from the same \<open>values\<close>. A returned dictionary is
  falsy only if it is empty.

  A successful \<open>assign\<close> of one of several candidates removes a candidate, so the
  recursive call is on a smaller assignment. Were it not (a candidate list that repeats
  one digit), the call would be on the same assignment again, and Python would end the
  unbounded recursion with \<open>RecursionError\<close>; this is the last branch of
  \<open>search_loop\<close>. (The interpreter's limit on the depth of a terminating recursion is
  not modelled.)
\<close>

function search :: "(cell list \<Rightarrow> cell list) \<Rightarrow> values option \<Rightarrow> int \<Rightarrow> (cell \<times> digit) list outcome"
  and search_loop :: "(cell list \<Rightarrow> cell list) \<Rightarrow> values \<Rightarrow> int \<Rightarrow> structures \<Rightarrow> cell \<Rightarrow> digit list
                        \<Rightarrow> (cell \<times> digit) list outcome"
where
  "search ito None sz = PyFalse"
| "search ito (Some vs) sz =
     (case initialize_structures sz of
        Inl e \<Rightarrow> Raises e
      | Inr m \<Rightarrow>
          (case all_single vs (squares m) of
             Inl e \<Rightarrow> Raises e
           | Inr True \<Rightarrow> Returns (map (\<lambda>s. (s, the (map_of vs s) ! 0)) (squares m))
           | Inr False \<Rightarrow>
               (case unsolved vs (squares m) of
                  Inl e \<Rightarrow> Raises e
                | Inr cs \<Rightarrow>
                    (case py_min cs of
                       Inl e \<Rightarrow> Raises e
                     | Inr (n, s) \<Rightarrow>
                         (case map_of vs s of
                            None \<Rightarrow> Raises KeyError
                          | Some ds \<Rightarrow> search_loop ito vs sz m s ds)))))"
| "search_loop ito vs sz m s [] = PyFalse"
| "search_loop ito vs sz m s (d # rest) =
     (case assign (peers_lookup ito m) vs s d of
        Raises e \<Rightarrow> Raises e
      | PyFalse \<Rightarrow>
          (case search ito None sz of
             Raises e \<Rightarrow> Raises e
           | PyFalse \<Rightarrow> search_loop ito vs sz m s rest
           | Returns r \<Rightarrow> if r = [] then search_loop ito vs sz m s rest else Returns r)
      | Returns vs' \<Rightarrow>
          if total vs' < total vs then
            (case search ito (Some vs') sz of
               Raises e \<Rightarrow> Raises e
             | PyFalse \<Rightarrow> search_loop ito vs sz m s rest
             | Returns r \<Rightarrow> if r = [] then search_loop ito vs sz m s rest else Returns r)
          else Raises RecursionError)"
  by pat_completeness auto
termination
  by (relation "inv_image (less_than <*lex*> less_than <*lex*> less_than)
        (\<lambda>x. case x of
               Inl (ito, v, sz) \<Rightarrow> (case v of None \<Rightarrow> 0 | Some vs \<Rightarrow> Suc (total vs), Suc 0, 0)
             | Inr (ito, vs, sz, m, s, ds) \<Rightarrow> (Suc (total vs), 0, length ds))")
     auto

text \<open>
  A puzzle as \<open>grid_values\<close> distinguishes it: a dictionary from cell ids to characters,
  a string, or anything else.
\<close>

datatype grid = GridDict "(string \<times> string) list" | GridStr string | GridOther

text \<open>
  The check of the keys of a dictionary: \<open>key[0] in rows and key[1:] in cols\<close>
  (\<open>key[0]\<close> raises \<open>IndexError\<close> for the empty key).
\<close>

fun check_keys :: "structures \<Rightarrow> string list \<Rightarrow> error + unit" where
  "check_keys m [] = Inr ()"
| "check_keys m ([] # ks) = Inl IndexError"
| "check_keys m ((c # cs) # ks) =
     (if c \<in> set (rows m) \<and> cs \<in> set (cols m) then check_keys m ks else Inl ValueError)"

text \<open>
  \<open>str.strip\<close>, \<open>str.split('\n')\<close>, \<open>str.isdigit\<close> and \<open>int\<close> on strings of 8-bit
  characters. \<open>isdigit\<close> also accepts the superscript digits, which \<open>int\<close> rejects;
  \<open>int\<close> rejects a string of more than 4300 digits.
\<close>

definition is_space :: "char \<Rightarrow> bool" where
  "is_space c = ((of_char c :: nat) \<in> {9, 10, 11, 12, 13, 28, 29, 30, 31, 32, 133, 160})"

definition strip :: "string \<Rightarrow> string" where
  "strip s = rev (dropWhile is_space (rev (dropWhile is_space s)))"

fun split_nl :: "string \<Rightarrow> string list" where
  "split_nl [] = [[]]"
| "split_nl (c # cs) =
     (if c = CHR 0x0A then [] # split_nl cs
      else (case split_nl cs of [] \<Rightarrow> [[c]] | l # ls \<Rightarrow> (c # l) # ls))"

definition isdigit :: "string \<Rightarrow> bool" where
  "isdigit s = (s \<noteq> [] \<and> (\<forall>c \<in> set s. (48 \<le> (of_char c :: nat) \<and> (of_char c :: nat) \<le> 57)
                                   \<or> (of_char c :: nat) \<in> {178, 179, 185}))"

definition py_int :: "string \<Rightarrow> error + int" where
  "py_int s =
     (if length s \<le> 4300 \<and> (\<forall>c \<in> set s. 48 \<le> (of_char c :: nat) \<and> (of_char c :: nat) \<le> 57)
      then Inr (foldl (\<lambda>a c. 10 * a + (of_char c - 48)) 0 s)
      else Inl ValueError)"

text \<open>
  \<open>grid_values(grid, size)\<close>: the dictionary itself once its keys are checked, or the
  dictionary read off a string, whose first line is skipped when it is the size.
\<close>

definition puzzle_alphabet :: string where
  "puzzle_alphabet = ''0123456789ABCDEFGHIJKLMNOPQRSTUVWXYZ.''"

definition skip_size_line :: "string list \<Rightarrow> int \<Rightarrow> error + string list" where
  "skip_size_line lines sz =
     (case lines of
        [] \<Rightarrow> Inr lines
      | l # ls \<Rightarrow>
          if isdigit l then
            (case py_int l of Inl e \<Rightarrow> Inl e | Inr v \<Rightarrow> Inr (if v = sz then ls else lines))
          else Inr lines)"

definition grid_values :: "grid \<Rightarrow> int \<Rightarrow> error + (cell \<times> string) list" where
  "grid_values g sz =
     (case initialize_structures sz of
        Inl e \<Rightarrow> Inl e
      | Inr m \<Rightarrow>
          (case g of
             GridDict d \<Rightarrow> (case check_keys m (map fst d) of Inl e \<Rightarrow> Inl e | Inr _ \<Rightarrow> Inr d)
           | GridStr text \<Rightarrow>
               (case skip_size_line (map strip (filter (\<lambda>l. strip l \<noteq> []) (split_nl text))) sz of
                  Inl e \<Rightarrow> Inl e
                | Inr lines \<Rightarrow>
                    let puzzle_chars = filter (\<lambda>c. c \<in> set puzzle_alphabet) (concat lines) in
                    if int (length puzzle_chars) \<noteq> sz * sz then Inl ValueError
                    else Inr (zip (cross (chars_of (rows m)) (cols m))
                                (map (\<lambda>c. if [c] \<noteq> ''0'' then [c] else ''.'') puzzle_chars)))
           | GridOther \<Rightarrow> Inl ValueError))"

text \<open>
  \<open>parse_grid(grid, size)\<close>: every cell starts with all digits, and every clue that is a
  digit of the alphabet is assigned (\<open>parse_loop\<close> is the loop over the items).
\<close>

fun parse_loop :: "(cell \<Rightarrow> error + cell list) \<Rightarrow> digit list \<Rightarrow> values \<Rightarrow> (cell \<times> string) list
                     \<Rightarrow> values outcome" where
  "parse_loop prs ds vs [] = Returns vs"
| "parse_loop prs ds vs ((s, d) # rest) =
     (if d \<noteq> ''.'' \<and> d \<in> set ds then
        (case assign prs vs s d of
           Returns vs' \<Rightarrow> parse_loop prs ds vs' rest
         | PyFalse \<Rightarrow> PyFalse
         | Raises e \<Rightarrow> Raises e)
      else parse_loop prs ds vs rest)"

definition parse_grid :: "(cell list \<Rightarrow> cell list) \<Rightarrow> grid \<Rightarrow> int \<Rightarrow> values outcome" where
  "parse_grid ito g sz =
     (case initialize_structures sz of
        Inl e \<Rightarrow> Raises e
      | Inr m \<Rightarrow>
          (case grid_values g sz of
             Inl e \<Rightarrow> Raises e
           | Inr grid_dict \<Rightarrow>
               parse_loop (peers_lookup ito m) (digits m)
                 (map (\<lambda>s. (s, digits m)) (squares m)) grid_dict))"

text \<open>
  \<open>solve(grid, size)\<close>. The solution \<open>search\<close> returns holds a string for every cell,
  so the final loop copies it.
\<close>

definition solve :: "(cell list \<Rightarrow> cell list) \<Rightarrow> grid \<Rightarrow> int \<Rightarrow> (cell \<times> digit) list outcome" where
  "solve ito g sz =
     (case parse_grid ito g sz of
        Raises e \<Rightarrow> Raises e
      | PyFalse \<Rightarrow> PyFalse
      | Returns vs \<Rightarrow>
          if vs = [] then PyFalse
          else
            (case search ito (Some vs) sz of
               Raises e \<Rightarrow> Raises e
             | PyFalse \<Rightarrow> PyFalse
             | Returns solution \<Rightarrow> if solution = [] then PyFalse else Returns solution))"

section \<open>Properties of propagation and search\<close>

text \<open>
  Invariants of propagation. An assignment is well formed when no candidate list is empty
  or repeats a digit; \<open>refines vs vs'\<close> says that \<open>vs'\<close> has the keys of \<open>vs\<close> and no
  new candidate; \<open>new_singles_ok\<close> says that every cell decided between \<open>vs\<close> and
  \<open>vs'\<close> has had its digit removed from all its peers.
\<close>

definition wf_values :: "values \<Rightarrow> bool" where
  "wf_values vs = (\<forall>k ds. map_of vs k = Some ds \<longrightarrow> distinct ds \<and> ds \<noteq> [])"

definition refines :: "values \<Rightarrow> values \<Rightarrow> bool" where
  "refines vs vs' =
     (\<forall>k. (map_of vs k = None \<longrightarrow> map_of vs' k = None)
        \<and> (\<forall>ds. map_of vs k = Some ds \<longrightarrow> (\<exists>ds'. map_of vs' k = Some ds' \<and> set ds' \<subseteq> set ds)))"

definition new_singles_ok :: "(cell \<Rightarrow> error + cell list) \<Rightarrow> values \<Rightarrow> values \<Rightarrow> bool" where
  "new_singles_ok prs vs vs' =
     (\<forall>k e. map_of vs' k = Some [e] \<longrightarrow> map_of vs k \<noteq> Some [e] \<longrightarrow>
        (\<forall>ps. prs k = Inr ps \<longrightarrow> (\<forall>p \<in> set ps. \<forall>dp. map_of vs' p = Some dp \<longrightarrow> e \<notin> set dp)))"

lemma refines_refl: "refines vs vs"
  by (simp add: refines_def)

lemma refines_trans:
  assumes "refines a b" "refines b c"
  shows "refines a c"
  unfolding refines_def
proof (intro allI conjI impI)
  fix k assume "map_of a k = None"
  then have "map_of b k = None" using assms(1) by (simp add: refines_def)
  then show "map_of c k = None" using assms(2) by (simp add: refines_def)
next
  fix k ds assume "map_of a k = Some ds"
  then obtain ds1 where 1: "map_of b k = Some ds1" "set ds1 \<subseteq> set ds"
    using assms(1) unfolding refines_def by blast
  then obtain ds2 where 2: "map_of c k = Some ds2" "set ds2 \<subseteq> set ds1"
    using assms(2) unfolding refines_def by blast
  show "\<exists>ds'. map_of c k = Some ds' \<and> set ds' \<subseteq> set ds"
    using 1 2 by auto
qed

lemma new_singles_refl: "new_singles_ok prs vs vs"
  by (simp add: new_singles_ok_def)

lemma refines_absent:
  "refines b c \<Longrightarrow> (\<forall>dp. map_of b p = Some dp \<longrightarrow> e \<notin> set dp) \<Longrightarrow> map_of c p = Some dp \<Longrightarrow> e \<notin> set dp"
proof (cases "map_of b p")
  case None
  assume "refines b c" "map_of c p = Some dp"
  with None show ?thesis by (simp add: refines_def)
next
  case (Some db)
  assume r: "refines b c" and a: "\<forall>dp. map_of b p = Some dp \<longrightarrow> e \<notin> set dp"
    and c: "map_of c p = Some dp"
  from r Some obtain dc where "map_of c p = Some dc" "set dc \<subseteq> set db"
    unfolding refines_def by blast
  with a Some c show ?thesis by auto
qed

lemma new_singles_trans:
  assumes "new_singles_ok prs a b" "new_singles_ok prs b c" "refines b c"
  shows "new_singles_ok prs a c"
  unfolding new_singles_ok_def
proof (intro allI impI ballI)
  fix k e ps p dp
  assume k: "map_of c k = Some [e]" "map_of a k \<noteq> Some [e]" "prs k = Inr ps" "p \<in> set ps"
    and dp: "map_of c p = Some dp"
  show "e \<notin> set dp"
  proof (cases "map_of b k = Some [e]")
    case True
    then have "\<forall>dp. map_of b p = Some dp \<longrightarrow> e \<notin> set dp"
      using assms(1) k unfolding new_singles_ok_def by blast
    then show ?thesis using refines_absent[OF assms(3) _ dp] by blast
  next
    case False
    then show ?thesis using assms(2) k dp unfolding new_singles_ok_def by blast
  qed
qed

lemma single_subset:
  "set ds' \<subseteq> set [e] \<Longrightarrow> distinct ds' \<Longrightarrow> ds' \<noteq> [] \<Longrightarrow> ds' = [e]"
proof -
  assume a: "set ds' \<subseteq> set [e]" "distinct ds'" "ds' \<noteq> []"
  then obtain x xs where x: "ds' = x # xs" by (cases ds') auto
  with a have "x = e" "\<forall>y \<in> set xs. y = e" "x \<notin> set xs" by auto
  then have "xs = []" by (cases xs) auto
  with x \<open>x = e\<close> show ?thesis by simp
qed



lemma eliminate_absent:
  "map_of vs s = Some ds \<Longrightarrow> d \<notin> set ds \<Longrightarrow> eliminate prs vs s d = Returns vs"
  by simp

lemma eliminate_present:
  "map_of vs s = Some ds \<Longrightarrow> d \<in> set ds \<Longrightarrow>
   eliminate prs vs s d =
     (if remove1 d ds = [] then PyFalse
      else if length (remove1 d ds) = 1 then
        (case prs s of
           Inl e \<Rightarrow> Raises e
         | Inr ps \<Rightarrow> eliminate_peers prs (AList.update s (remove1 d ds) vs) ps (remove1 d ds ! 0))
      else Returns (AList.update s (remove1 d ds) vs))"
  by (simp add: Let_def)

lemma eliminate_missing: "map_of vs s = None \<Longrightarrow> eliminate prs vs s d = Raises KeyError"
  by simp

lemma eliminate_peers_Cons:
  "eliminate_peers prs vs (s2 # rest) d2 =
     (case eliminate prs vs s2 d2 of
        Returns vs' \<Rightarrow> eliminate_peers prs vs' rest d2
      | PyFalse \<Rightarrow> PyFalse
      | Raises e \<Rightarrow> Raises e)"
  by simp

declare eliminate.simps [simp del]
declare eliminate_peers.simps(2) [simp del]

lemma remove_step:
  assumes "map_of vs s = Some ds" "d \<in> set ds" "wf_values vs" "remove1 d ds \<noteq> []"
  shows "wf_values (AList.update s (remove1 d ds) vs)"
    and "refines vs (AList.update s (remove1 d ds) vs)"
    and "d \<notin> set (remove1 d ds)"
proof -
  have dds: "distinct ds" using assms(1,3) unfolding wf_values_def by blast
  then show "d \<notin> set (remove1 d ds)" by simp
  have m1: "map_of (AList.update s (remove1 d ds) vs) = (map_of vs)(s \<mapsto> remove1 d ds)"
    by (simp add: update_conv')
  show "wf_values (AList.update s (remove1 d ds) vs)"
    unfolding wf_values_def
  proof (intro allI impI)
    fix k ds' assume k: "map_of (AList.update s (remove1 d ds) vs) k = Some ds'"
    show "distinct ds' \<and> ds' \<noteq> []"
    proof (cases "k = s")
      case True
      with k have "ds' = remove1 d ds" by (simp add: m1)
      with dds assms(4) show ?thesis by simp
    next
      case False
      with k have "map_of vs k = Some ds'" by (simp add: m1)
      with assms(3) show ?thesis unfolding wf_values_def by blast
    qed
  qed
  show "refines vs (AList.update s (remove1 d ds) vs)"
    unfolding refines_def
  proof (intro allI conjI impI)
    fix k assume "map_of vs k = None"
    with assms(1) have "k \<noteq> s" by auto
    with \<open>map_of vs k = None\<close> show "map_of (AList.update s (remove1 d ds) vs) k = None"
      by (simp add: m1)
  next
    fix k dk assume k: "map_of vs k = Some dk"
    show "\<exists>ds'. map_of (AList.update s (remove1 d ds) vs) k = Some ds' \<and> set ds' \<subseteq> set dk"
    proof (cases "k = s")
      case True
      with k assms(1) have "dk = ds" by simp
      with True show ?thesis using set_remove1_subset[of d ds] by (simp add: m1)
    next
      case False
      with k show ?thesis by (simp add: m1)
    qed
  qed
qed

lemma refines_single:
  assumes "refines vs vs'" "map_of vs s = Some [e]" "map_of vs' s = Some ds'"
  shows "set ds' \<subseteq> {e}"
  using assms unfolding refines_def by fastforce

lemma eliminate_props:
  "eliminate prs vs s d = Returns vs' \<Longrightarrow> wf_values vs \<Longrightarrow>
     wf_values vs' \<and> refines vs vs' \<and> new_singles_ok prs vs vs'
     \<and> (\<forall>ds'. map_of vs' s = Some ds' \<longrightarrow> d \<notin> set ds')"
  "eliminate_peers prs vs ss d2 = Returns vs' \<Longrightarrow> wf_values vs \<Longrightarrow>
     wf_values vs' \<and> refines vs vs' \<and> new_singles_ok prs vs vs'
     \<and> (\<forall>p \<in> set ss. \<forall>dp. map_of vs' p = Some dp \<longrightarrow> d2 \<notin> set dp)"
proof (induction prs vs s d and prs vs ss d2 arbitrary: vs' and vs'
        rule: eliminate_eliminate_peers.induct)
  case (1 prs vs s d)
  note ret = "1.prems"(1) and wf = "1.prems"(2)
  from ret obtain ds where ds: "map_of vs s = Some ds"
    by (cases "map_of vs s") (auto simp: eliminate_missing)
  show ?case
  proof (cases "d \<in> set ds")
    case False
    then have "vs' = vs" using ret ds by (simp add: eliminate_absent)
    moreover have "\<forall>ds'. map_of vs s = Some ds' \<longrightarrow> d \<notin> set ds'" using ds False by simp
    ultimately show ?thesis using wf refines_refl new_singles_refl by blast
  next
    case True
    let ?ds1 = "remove1 d ds"
    let ?vs1 = "AList.update s ?ds1 vs"
    note unf = eliminate_present[OF ds True, of prs]
    have ne: "?ds1 \<noteq> []" using ret unfolding unf by (auto split: if_splits)
    note st = remove_step[OF ds True wf ne]
    have m1: "map_of ?vs1 = (map_of vs)(s \<mapsto> ?ds1)" by (simp add: update_conv')
    show ?thesis
    proof (cases "length ?ds1 = 1")
      case False
      then have eq: "vs' = ?vs1" using ret ne unfolding unf by simp
      have "new_singles_ok prs vs ?vs1"
        unfolding new_singles_ok_def
      proof (intro allI impI ballI)
        fix k e ps p dp
        assume k: "map_of ?vs1 k = Some [e]" "map_of vs k \<noteq> Some [e]"
        have "k = s" using k by (cases "k = s") (simp_all add: m1)
        then have "?ds1 = [e]" using k by (simp add: m1)
        then show "e \<notin> set dp" using False by simp
      qed
      moreover have "\<forall>ds'. map_of ?vs1 s = Some ds' \<longrightarrow> d \<notin> set ds'"
        using st(3) by (simp add: m1)
      ultimately show ?thesis unfolding eq using st(1,2) by blast
    next
      case one: True
      then obtain e where e: "?ds1 = [e]" by (cases ?ds1) auto
      from ret ne one obtain ps where ps: "prs s = Inr ps"
        and r: "eliminate_peers prs ?vs1 ps (?ds1 ! 0) = Returns vs'"
        unfolding unf by (cases "prs s") auto
      have ne0: "\<not> length ?ds1 = 0" using ne by simp
      have nd: "\<not> d \<notin> set ds" using True by simp
      have ih: "wf_values vs' \<and> refines ?vs1 vs' \<and> new_singles_ok prs ?vs1 vs'
          \<and> (\<forall>p \<in> set ps. \<forall>dp. map_of vs' p = Some dp \<longrightarrow> ?ds1 ! 0 \<notin> set dp)"
        by (rule "1.IH"[OF ds nd refl refl ne0 one ps r st(1)])
      have e0: "?ds1 ! 0 = e" using e by simp
      have rv: "refines vs vs'" using st(2) ih refines_trans by blast
      have "\<forall>dp. map_of ?vs1 s = Some dp \<longrightarrow> d \<notin> set dp" using st(3) by (simp add: m1)
      then have dv: "\<forall>ds'. map_of vs' s = Some ds' \<longrightarrow> d \<notin> set ds'"
        using refines_absent[of ?vs1 vs' s d] ih by blast
      have "new_singles_ok prs vs vs'"
        unfolding new_singles_ok_def
      proof (intro allI impI ballI)
        fix k e' ps' p dp
        assume k: "map_of vs' k = Some [e']" "map_of vs k \<noteq> Some [e']" "prs k = Inr ps'"
          "p \<in> set ps'" and dp: "map_of vs' p = Some dp"
        show "e' \<notin> set dp"
        proof (cases "k = s")
          case False
          then have "map_of ?vs1 k \<noteq> Some [e']" using k by (simp add: m1)
          moreover have "new_singles_ok prs ?vs1 vs'" using ih by blast
          ultimately show ?thesis using k dp unfolding new_singles_ok_def by blast
        next
          case ks: True
          have "map_of ?vs1 s = Some [e]" unfolding m1 using e by simp
          moreover have "refines ?vs1 vs'" using ih by blast
          ultimately have "set [e'] \<subseteq> {e}" using refines_single k(1) ks by blast
          then have "e' = e" by simp
          moreover have "ps' = ps" using k ks ps by simp
          moreover have "\<forall>p \<in> set ps. \<forall>dp. map_of vs' p = Some dp \<longrightarrow> e \<notin> set dp"
            using ih e0 by simp
          ultimately show ?thesis using k dp by blast
        qed
      qed
      then show ?thesis using ih rv dv by blast
    qed
  qed
next
  case (2 prs vs d2)
  then have "vs' = vs" by simp
  then show ?case using "2.prems"(2) refines_refl new_singles_refl by auto
next
  case (3 prs vs s2 rest d2)
  from "3.prems"(1) obtain v1 where v1: "eliminate prs vs s2 d2 = Returns v1"
    and r: "eliminate_peers prs v1 rest d2 = Returns vs'"
    unfolding eliminate_peers_Cons by (cases "eliminate prs vs s2 d2") auto
  have a: "wf_values v1 \<and> refines vs v1 \<and> new_singles_ok prs vs v1
     \<and> (\<forall>ds'. map_of v1 s2 = Some ds' \<longrightarrow> d2 \<notin> set ds')"
    by (rule "3.IH"(1)[OF v1 "3.prems"(2)])
  then have wf1: "wf_values v1" by blast
  have b: "wf_values vs' \<and> refines v1 vs' \<and> new_singles_ok prs v1 vs'
     \<and> (\<forall>p \<in> set rest. \<forall>dp. map_of vs' p = Some dp \<longrightarrow> d2 \<notin> set dp)"
    by (rule "3.IH"(2)[OF v1 r wf1])
  have c: "\<forall>dp. map_of vs' s2 = Some dp \<longrightarrow> d2 \<notin> set dp"
    using refines_absent[of v1 vs' s2 d2] a b by blast
  have "refines vs vs'" using a b refines_trans by blast
  moreover have "new_singles_ok prs vs vs'" using a b new_singles_trans by blast
  moreover have "\<forall>p \<in> set (s2 # rest). \<forall>dp. map_of vs' p = Some dp \<longrightarrow> d2 \<notin> set dp"
    using b c by simp
  ultimately show ?case using b by blast
qed

text \<open>
  The invariant of \<open>parse_grid\<close> and \<open>search\<close>: well formed, within the digit alphabet,
  and the digit of every decided cell is a candidate of none of its peers.
\<close>

definition good_values :: "(cell \<Rightarrow> error + cell list) \<Rightarrow> digit list \<Rightarrow> values \<Rightarrow> bool" where
  "good_values prs dg vs =
     (wf_values vs
      \<and> (\<forall>k ds. map_of vs k = Some ds \<longrightarrow> set ds \<subseteq> set dg)
      \<and> (\<forall>k e. map_of vs k = Some [e] \<longrightarrow>
            (\<forall>ps. prs k = Inr ps \<longrightarrow> (\<forall>p \<in> set ps. \<forall>dp. map_of vs p = Some dp \<longrightarrow> e \<notin> set dp))))"

lemma refines_back:
  assumes "refines vs vs'" "map_of vs' k = Some ds'"
  shows "\<exists>ds. map_of vs k = Some ds \<and> set ds' \<subseteq> set ds"
proof (cases "map_of vs k")
  case None
  with assms show ?thesis unfolding refines_def by fastforce
next
  case (Some ds)
  with assms(1) obtain d2 where "map_of vs' k = Some d2" "set d2 \<subseteq> set ds"
    unfolding refines_def by blast
  with assms(2) Some show ?thesis by simp
qed

lemma good_step:
  assumes g: "good_values prs dg vs" and wf: "wf_values vs'" and r: "refines vs vs'"
    and n: "new_singles_ok prs vs vs'"
  shows "good_values prs dg vs'"
  unfolding good_values_def
proof (intro conjI allI impI ballI)
  show "wf_values vs'" by (rule wf)
next
  fix k ds assume "map_of vs' k = Some ds"
  then obtain d0 where "map_of vs k = Some d0" "set ds \<subseteq> set d0"
    using refines_back[OF r] by blast
  moreover have "set d0 \<subseteq> set dg" using g calculation(1) unfolding good_values_def by blast
  ultimately show "set ds \<subseteq> set dg" by blast
next
  fix k e ps p dp
  assume k: "map_of vs' k = Some [e]" "prs k = Inr ps" "p \<in> set ps" and dp: "map_of vs' p = Some dp"
  show "e \<notin> set dp"
  proof (cases "map_of vs k = Some [e]")
    case True
    then have "\<forall>dp. map_of vs p = Some dp \<longrightarrow> e \<notin> set dp"
      using g k unfolding good_values_def by blast
    then show ?thesis using refines_absent[OF r _ dp] by blast
  next
    case False
    then show ?thesis using n k dp unfolding new_singles_ok_def by blast
  qed
qed

lemma assign_loop_props:
  "assign_loop prs vs s ds2 = Returns vs' \<Longrightarrow> wf_values vs \<Longrightarrow>
     wf_values vs' \<and> refines vs vs' \<and> new_singles_ok prs vs vs'"
proof (induction ds2 arbitrary: vs)
  case Nil
  then show ?case by (simp add: refines_refl new_singles_refl)
next
  case (Cons d2 rest)
  from Cons.prems(1) obtain v1 where v1: "eliminate prs vs s d2 = Returns v1"
    and r: "assign_loop prs v1 s rest = Returns vs'"
    by (cases "eliminate prs vs s d2") auto
  have a: "wf_values v1 \<and> refines vs v1 \<and> new_singles_ok prs vs v1"
    using eliminate_props(1)[OF v1 Cons.prems(2)] by blast
  then have wf1: "wf_values v1" by blast
  have b: "wf_values vs' \<and> refines v1 vs' \<and> new_singles_ok prs v1 vs'"
    by (rule Cons.IH[OF r wf1])
  show ?case using a b refines_trans new_singles_trans by blast
qed

lemma assign_good:
  assumes "assign prs vs s d = Returns vs'" "good_values prs dg vs"
  shows "good_values prs dg vs'"
proof -
  from assms(1) obtain ds where "assign_loop prs vs s (filter (\<lambda>v. v \<noteq> d) ds) = Returns vs'"
    unfolding assign_def by (cases "map_of vs s") auto
  moreover have "wf_values vs" using assms(2) unfolding good_values_def by blast
  ultimately have "wf_values vs' \<and> refines vs vs' \<and> new_singles_ok prs vs vs'"
    by (rule assign_loop_props)
  then show ?thesis using good_step[OF assms(2)] by blast
qed

lemma parse_loop_good:
  "parse_loop prs dg vs gd = Returns vs' \<Longrightarrow> good_values prs dg vs \<Longrightarrow> good_values prs dg vs'"
proof (induction gd arbitrary: vs)
  case Nil
  then show ?case by simp
next
  case (Cons p rest)
  obtain s d where p: "p = (s, d)" by (cases p)
  show ?case
  proof (cases "d \<noteq> ''.'' \<and> d \<in> set dg")
    case False
    then have "parse_loop prs dg vs rest = Returns vs'" using Cons.prems(1) p by auto
    then show ?thesis using Cons.IH Cons.prems(2) by blast
  next
    case True
    then obtain v1 where v1: "assign prs vs s d = Returns v1"
      and r: "parse_loop prs dg v1 rest = Returns vs'"
      using Cons.prems(1) p by (cases "assign prs vs s d") auto
    have "good_values prs dg v1" by (rule assign_good[OF v1 Cons.prems(2)])
    then show ?thesis using Cons.IH[OF r] by blast
  qed
qed

text \<open>
  A solution over the cells \<open>sqs\<close> in which no cell has the digit of one of its peers.
\<close>

definition consistent :: "(cell \<Rightarrow> error + cell list) \<Rightarrow> digit list \<Rightarrow> cell list \<Rightarrow> (cell \<times> digit) list \<Rightarrow> bool" where
  "consistent prs dg sqs sol =
     (map fst sol = sqs
      \<and> (\<forall>s \<in> set sqs. \<exists>d. map_of sol s = Some d \<and> d \<in> set dg
            \<and> (\<forall>ps. prs s = Inr ps \<longrightarrow> (\<forall>p \<in> set ps. p \<in> set sqs \<longrightarrow> map_of sol p \<noteq> Some d))))"

lemma all_single_True:
  "all_single vs sqs = Inr True \<Longrightarrow> s \<in> set sqs \<Longrightarrow> \<exists>e. map_of vs s = Some [e]"
proof (induction sqs)
  case Nil
  then show ?case by simp
next
  case (Cons a sqs)
  from Cons.prems(1) obtain ds where ds: "map_of vs a = Some ds" "length ds = 1"
    and rest: "all_single vs sqs = Inr True"
    by (cases "map_of vs a") (auto split: if_splits)
  from ds obtain e where "ds = [e]" by (cases ds) auto
  with ds Cons.IH[OF rest] Cons.prems(2) show ?case by auto
qed

lemma solved_consistent:
  assumes g: "good_values prs dg vs" and a: "all_single vs sqs = Inr True"
  shows "consistent prs dg sqs (map (\<lambda>s. (s, the (map_of vs s) ! 0)) sqs)"
  unfolding consistent_def
proof (intro conjI ballI)
  show "map fst (map (\<lambda>s. (s, the (map_of vs s) ! 0)) sqs) = sqs"
    by (simp add: comp_def)
next
  fix s assume s: "s \<in> set sqs"
  let ?sol = "map (\<lambda>s. (s, the (map_of vs s) ! 0)) sqs"
  obtain e where e: "map_of vs s = Some [e]" using all_single_True[OF a s] by blast
  have ms: "map_of ?sol s = Some e"
    using map_of_map_key[OF s, of "\<lambda>s. the (map_of vs s) ! 0"] e by simp
  have "set [e] \<subseteq> set dg" using g e unfolding good_values_def by blast
  then have edg: "e \<in> set dg" by simp
  have "\<forall>ps. prs s = Inr ps \<longrightarrow> (\<forall>p \<in> set ps. p \<in> set sqs \<longrightarrow> map_of ?sol p \<noteq> Some e)"
  proof (intro allI impI ballI)
    fix ps p assume ps: "prs s = Inr ps" "p \<in> set ps" "p \<in> set sqs"
    obtain e' where e': "map_of vs p = Some [e']" using all_single_True[OF a ps(3)] by blast
    have "e \<notin> set [e']" using g e ps e' unfolding good_values_def by blast
    moreover have "map_of ?sol p = Some e'"
      using map_of_map_key[OF ps(3), of "\<lambda>s. the (map_of vs s) ! 0"] e' by simp
    ultimately show "map_of ?sol p \<noteq> Some e" by simp
  qed
  then show "\<exists>d. map_of ?sol s = Some d \<and> d \<in> set dg
            \<and> (\<forall>ps. prs s = Inr ps \<longrightarrow> (\<forall>p \<in> set ps. p \<in> set sqs \<longrightarrow> map_of ?sol p \<noteq> Some d))"
    using ms edg by blast
qed

lemma search_consistent:
  "search ito v sz = Returns sol \<Longrightarrow> initialize_structures sz = Inr m \<Longrightarrow>
     (\<forall>vs. v = Some vs \<longrightarrow> good_values (peers_lookup ito m) (digits m) vs) \<Longrightarrow>
     consistent (peers_lookup ito m) (digits m) (squares m) sol"
  "search_loop ito vs sz m' s ds = Returns sol \<Longrightarrow> initialize_structures sz = Inr m \<Longrightarrow> m' = m \<Longrightarrow>
     good_values (peers_lookup ito m) (digits m) vs \<Longrightarrow>
     consistent (peers_lookup ito m) (digits m) (squares m) sol"
proof (induction ito v sz and ito vs sz m' s ds arbitrary: sol m and sol m
        rule: search_search_loop.induct)
  case (1 ito sz)
  then show ?case by simp
next
  case (2 ito vs sz)
  note ret = "2.prems"(1) and m = "2.prems"(2)
  have g: "good_values (peers_lookup ito m) (digits m) vs" using "2.prems"(3) by simp
  show ?case
  proof (cases "all_single vs (squares m)")
    case (Inl e)
    then show ?thesis using ret m by simp
  next
    case (Inr b)
    show ?thesis
    proof (cases b)
      case True
      then have at: "all_single vs (squares m) = Inr True" using Inr by simp
      then have "sol = map (\<lambda>s. (s, the (map_of vs s) ! 0)) (squares m)"
        using ret m by simp
      then show ?thesis using solved_consistent[OF g at] by simp
    next
      case False
      have as: "all_single vs (squares m) = Inr False" using Inr False by simp
      from ret m as obtain cs where cs: "unsolved vs (squares m) = Inr cs"
        by (cases "unsolved vs (squares m)") auto
      from ret m as cs obtain n s where mn: "py_min cs = Inr (n, s)"
        by (cases "py_min cs") auto
      from ret m as cs mn obtain ds where ds: "map_of vs s = Some ds"
        by (cases "map_of vs s") auto
      have r: "search_loop ito vs sz m s ds = Returns sol"
        using ret m as cs mn ds by simp
      show ?thesis
        by (rule "2.IH"[OF m as refl cs mn refl ds r m refl g])
    qed
  qed
next
  case (3 ito vs sz m' s)
  then show ?case by simp
next
  case (4 ito vs sz m' s d rest)
  note ret = "4.prems"(1) and m = "4.prems"(2) and mm = "4.prems"(3) and g = "4.prems"(4)
  let ?prs = "peers_lookup ito m"
  show ?case
  proof (cases "assign (peers_lookup ito m') vs s d")
    case (Raises e)
    then show ?thesis using ret by simp
  next
    case PyFalse
    then have r: "search_loop ito vs sz m' s rest = Returns sol" using ret by simp
    show ?thesis by (rule "4.IH"(2)[OF PyFalse _ r m mm g]) simp
  next
    case (Returns vs')
    have g': "good_values ?prs (digits m) vs'"
      using assign_good[OF Returns[unfolded mm] g] .
    show ?thesis
    proof (cases "total vs' < total vs")
      case False
      then show ?thesis using ret Returns by simp
    next
      case True
      show ?thesis
      proof (cases "search ito (Some vs') sz")
        case (Raises e)
        then show ?thesis using ret Returns True by simp
      next
        case PyFalse
        then have r: "search_loop ito vs sz m' s rest = Returns sol"
          using ret Returns True by simp
        show ?thesis by (rule "4.IH"(5)[OF Returns True PyFalse r m mm g])
      next
        case sr: (Returns r0)
        show ?thesis
        proof (cases "r0 = []")
          case e: True
          then have r: "search_loop ito vs sz m' s rest = Returns sol"
            using ret Returns True sr by simp
          show ?thesis by (rule "4.IH"(6)[OF Returns True sr e r m mm g])
        next
          case ne: False
          then have "sol = r0" using ret Returns True sr by simp
          then show ?thesis using "4.IH"(4)[OF Returns True sr[unfolded \<open>sol = r0\<close>[symmetric]] m] g'
            by simp
        qed
      qed
    qed
  qed
qed

section \<open>Validity of the exact search\<close>

lemma accepted_model:
  assumes "initialize_structures sz = Inr m"
  obtains sr sc where "0 < sr" "sr * sc = nat sz" "0 < nat sz" "nat sz \<le> 26"
    "distinct (rows m)" "distinct (cols m)" "length (rows m) = nat sz" "length (cols m) = nat sz"
    "squares m = cross (chars_of (rows m)) (cols m)"
    "unitlist m = unitlist_of (rows m) (cols m) sr sc"
    "peers m = make_peers (squares m) (unitlist m)"
    "make_digits (nat sz) = Inr (digits m)"
proof -
  define n where "n = nat sz"
  have range: "1 \<le> sz" "sz \<le> 26" using initialize_structures_range[OF assms] by simp_all
  then have n: "0 < n" "n \<le> 26" by (auto simp: n_def)
  obtain sr sc ds where sr: "0 < sr" "sr * sc = n"
    and m: "m = \<lparr> rows = take n alphabet, cols = cols_of n,
             squares = cross (chars_of (take n alphabet)) (cols_of n),
             unitlist = unitlist_of (take n alphabet) (cols_of n) sr sc,
             units = make_units (cross (chars_of (take n alphabet)) (cols_of n))
                       (unitlist_of (take n alphabet) (cols_of n) sr sc),
             peers = make_peers (cross (chars_of (take n alphabet)) (cols_of n))
                       (unitlist_of (take n alphabet) (cols_of n) sr sc),
             subgrid_rows = sr, subgrid_cols = sc, digits = ds \<rparr>"
    using initialize_structures_form[OF range] assms unfolding n_def
    by (metis sum.inject(2))
  have dg: "make_digits (nat sz) = Inr (digits m)"
    using assms unfolding initialize_structures_def Let_def
    by (auto split: if_splits sum.splits)
  show ?thesis
  proof (rule that[OF sr(1) sr(2)[unfolded n_def] n(1)[unfolded n_def] n(2)[unfolded n_def]])
    show "distinct (rows m)" using n by (simp add: m distinct_alphabet)
    show "distinct (cols m)" using n by (simp add: m distinct_cols_of)
    show "length (rows m) = nat sz" using n by (simp add: m length_alphabet n_def)
    show "length (cols m) = nat sz" by (simp add: m cols_of_def n_def)
    show "squares m = cross (chars_of (rows m)) (cols m)" by (simp add: m)
    show "unitlist m = unitlist_of (rows m) (cols m) sr sc" by (simp add: m)
    show "peers m = make_peers (squares m) (unitlist m)" by (simp add: m)
    show "make_digits (nat sz) = Inr (digits m)" by (rule dg)
  qed
qed

lemma model_units:
  assumes "initialize_structures sz = Inr m" "u \<in> set (unitlist m)"
  shows "distinct u" "length u = nat sz" "set u \<subseteq> set (squares m)"
proof -
  obtain sr sc where f: "0 < sr" "sr * sc = nat sz"
    "distinct (rows m)" "distinct (cols m)" "length (rows m) = nat sz" "length (cols m) = nat sz"
    "squares m = cross (chars_of (rows m)) (cols m)"
    "unitlist m = unitlist_of (rows m) (cols m) sr sc"
    by (rule accepted_model[OF assms(1)])
  have "u \<in> set (unitlist_of (rows m) (cols m) sr sc)" using assms(2) f(8) by simp
  from unitlist_of_facts[OF f(3,4,5,6,1,2) this]
  show "distinct u" "length u = nat sz" "set u \<subseteq> set (squares m)" using f(7) by simp_all
qed

lemma model_digits:
  assumes "initialize_structures sz = Inr m"
  shows "distinct (digits m)" "length (digits m) = nat sz" "0 < nat sz"
proof -
  obtain sr sc where f: "0 < nat sz" "nat sz \<le> 26" "make_digits (nat sz) = Inr (digits m)"
    by (rule accepted_model[OF assms(1)])
  show "distinct (digits m)" by (rule make_digits_distinct[OF f(2,3)])
  show "length (digits m) = nat sz" using make_digits_ok[OF f(2)] f(3) by auto
  show "0 < nat sz" by (rule f(1))
qed

lemma model_peers:
  assumes m: "initialize_structures sz = Inr m" and ord: "\<forall>xs. set (ito xs) = set xs"
    and s: "s \<in> set (squares m)"
  shows "\<exists>ps. peers_lookup ito m s = Inr ps
           \<and> set ps = {p. p \<noteq> s \<and> (\<exists>u \<in> set (unitlist m). s \<in> set u \<and> p \<in> set u)}"
proof -
  obtain sr sc where f: "peers m = make_peers (squares m) (unitlist m)"
    by (rule accepted_model[OF m])
  obtain ps where ps: "map_of (peers m) s = Some ps"
    "set ps = {p. p \<noteq> s \<and> (\<exists>u \<in> set (unitlist m). s \<in> set u \<and> p \<in> set u)}"
    using make_peers_lookup[OF s, of "unitlist m"] unfolding f by blast
  have "peers_lookup ito m s = Inr (ito ps)" by (simp add: peers_lookup_def ps(1))
  moreover have "set (ito ps) = set ps" using ord by simp
  ultimately show ?thesis using ps(2) by simp
qed

lemma model_peers_in_squares:
  assumes m: "initialize_structures sz = Inr m" and ord: "\<forall>xs. set (ito xs) = set xs"
    and ps: "peers_lookup ito m s = Inr ps" and p: "p \<in> set ps"
  shows "p \<in> set (squares m) \<and> p \<noteq> s"
proof -
  obtain sr sc where f: "peers m = make_peers (squares m) (unitlist m)"
    by (rule accepted_model[OF m])
  from ps obtain ps0 where ps0: "map_of (peers m) s = Some ps0" "ps = ito ps0"
    unfolding peers_lookup_def by (cases "map_of (peers m) s") auto
  have s: "s \<in> set (squares m)" and e: "ps0 = removeAll s (remdups (concat (filter (\<lambda>u. s \<in> set u) (unitlist m))))"
    using map_of_map_key_dom[of "\<lambda>s. removeAll s (remdups (concat (filter (\<lambda>u. s \<in> set u) (unitlist m))))" "squares m" s ps0]
      ps0(1) unfolding f make_peers_def by simp_all
  have "p \<in> set ps0" using p ps0(2) ord by simp
  then obtain u where u: "u \<in> set (unitlist m)" "p \<in> set u" "p \<noteq> s" unfolding e by auto
  then show ?thesis using model_units(3)[OF m u(1)] by blast
qed

lemma initial_values_good:
  assumes m: "initialize_structures sz = Inr m" and ord: "\<forall>xs. set (ito xs) = set xs"
  shows "good_values (peers_lookup ito m) (digits m) (map (\<lambda>s. (s, digits m)) (squares m))"
  unfolding good_values_def wf_values_def
proof (intro conjI allI impI ballI)
  fix k ds assume "map_of (map (\<lambda>s. (s, digits m)) (squares m)) k = Some ds"
  then have "ds = digits m" using map_of_map_key_dom[of "\<lambda>s. digits m" "squares m" k ds] by simp
  then show "distinct ds" "ds \<noteq> []" using model_digits[OF m] by auto
next
  fix k ds assume "map_of (map (\<lambda>s. (s, digits m)) (squares m)) k = Some ds"
  then have "ds = digits m" using map_of_map_key_dom[of "\<lambda>s. digits m" "squares m" k ds] by simp
  then show "set ds \<subseteq> set (digits m)" by simp
next
  fix k e ps p dp
  assume k: "map_of (map (\<lambda>s. (s, digits m)) (squares m)) k = Some [e]"
    and ps: "peers_lookup ito m k = Inr ps" and p: "p \<in> set ps"
    and dp: "map_of (map (\<lambda>s. (s, digits m)) (squares m)) p = Some dp"
  have k1: "k \<in> set (squares m)" "digits m = [e]"
    using map_of_map_key_dom[of "\<lambda>s. digits m" "squares m" k "[e]"] k by simp_all
  then have n1: "nat sz = 1" using model_digits(2)[OF m] by simp
  obtain sr sc where f: "length (rows m) = nat sz" "length (cols m) = nat sz"
    "squares m = cross (chars_of (rows m)) (cols m)"
    by (rule accepted_model[OF m])
  obtain r where r: "rows m = [r]" using f(1) n1 by (cases "rows m") auto
  obtain c where c: "cols m = [c]" using f(2) n1 by (cases "cols m") auto
  have sq: "squares m = [r # c]" by (simp add: f(3) r c cross_def chars_of_def)
  have "p \<in> set (squares m) \<and> p \<noteq> k" by (rule model_peers_in_squares[OF m ord ps p])
  then have False using k1(1) sq by simp
  then show "e \<notin> set dp" ..
qed

text \<open>
  A solution is valid for a model when it gives a digit to exactly the cells of the board
  and, along every unit of the unit list (every column, every row and every subgrid), the
  digits it gives are a permutation of the digit alphabet.
\<close>

definition valid_solution :: "structures \<Rightarrow> (cell \<times> digit) list \<Rightarrow> bool" where
  "valid_solution m sol =
     (map fst sol = squares m
      \<and> (\<forall>u \<in> set (unitlist m). mset (map (map_of sol) u) = mset (map Some (digits m))))"

lemma consistent_valid:
  assumes m: "initialize_structures sz = Inr m" and ord: "\<forall>xs. set (ito xs) = set xs"
    and c: "consistent (peers_lookup ito m) (digits m) (squares m) sol"
  shows "valid_solution m sol"
  unfolding valid_solution_def
proof (intro conjI ballI)
  show "map fst sol = squares m" using c unfolding consistent_def by blast
next
  fix u assume u: "u \<in> set (unitlist m)"
  note uf = model_units[OF m u]
  note df = model_digits[OF m]
  have val: "\<exists>d. map_of sol s = Some d \<and> d \<in> set (digits m)
               \<and> (\<forall>ps. peers_lookup ito m s = Inr ps \<longrightarrow>
                     (\<forall>p \<in> set ps. p \<in> set (squares m) \<longrightarrow> map_of sol p \<noteq> Some d))"
    if "s \<in> set (squares m)" for s
    using c that unfolding consistent_def by blast
  have inj: "inj_on (map_of sol) (set u)"
  proof (rule inj_onI)
    fix s t assume st: "s \<in> set u" "t \<in> set u" "map_of sol s = map_of sol t"
    show "s = t"
    proof (rule ccontr)
      assume ne: "s \<noteq> t"
      have ss: "s \<in> set (squares m)" "t \<in> set (squares m)" using st uf(3) by auto
      obtain d where d: "map_of sol s = Some d"
        "\<forall>ps. peers_lookup ito m s = Inr ps \<longrightarrow>
            (\<forall>p \<in> set ps. p \<in> set (squares m) \<longrightarrow> map_of sol p \<noteq> Some d)"
        using val[OF ss(1)] by blast
      obtain ps where ps: "peers_lookup ito m s = Inr ps"
        "set ps = {p. p \<noteq> s \<and> (\<exists>u \<in> set (unitlist m). s \<in> set u \<and> p \<in> set u)}"
        using model_peers[OF m ord ss(1)] by blast
      have "t \<in> set ps" unfolding ps(2) using ne st(1,2) u by blast
      then have "map_of sol t \<noteq> Some d" using d(2) ps(1) ss(2) by blast
      then show False using st(3) d(1) by simp
    qed
  qed
  have dist: "distinct (map (map_of sol) u)" using uf(1) inj by (simp add: distinct_map)
  have sub: "set (map (map_of sol) u) \<subseteq> set (map Some (digits m))"
  proof
    fix x assume "x \<in> set (map (map_of sol) u)"
    then obtain s where s: "s \<in> set u" "x = map_of sol s" by auto
    then have "s \<in> set (squares m)" using uf(3) by auto
    from val[OF this] s(2) show "x \<in> set (map Some (digits m))" by auto
  qed
  have dist2: "distinct (map Some (digits m))" using df(1) by (simp add: distinct_map)
  have "card (set (map (map_of sol) u)) = length u" using dist distinct_card by fastforce
  moreover have "card (set (map Some (digits m))) = length (digits m)"
    using dist2 distinct_card by fastforce
  ultimately have "card (set (map Some (digits m))) \<le> card (set (map (map_of sol) u))"
    using uf(2) df(2) by simp
  then have "set (map (map_of sol) u) = set (map Some (digits m))"
    using sub by (intro card_seteq) auto
  then show "mset (map (map_of sol) u) = mset (map Some (digits m))"
    using dist dist2 by (simp only: set_eq_iff_mset_eq_distinct)
qed

lemma parse_grid_good:
  assumes m: "initialize_structures sz = Inr m" and ord: "\<forall>xs. set (ito xs) = set xs"
    and p: "parse_grid ito g sz = Returns vs"
  shows "good_values (peers_lookup ito m) (digits m) vs"
proof -
  from p m obtain gd where
    "parse_loop (peers_lookup ito m) (digits m) (map (\<lambda>s. (s, digits m)) (squares m)) gd = Returns vs"
    unfolding parse_grid_def by (auto split: sum.splits)
  then show ?thesis by (rule parse_loop_good[OF _ initial_values_good[OF m ord]])
qed

lemma search_valid:
  assumes ord: "\<forall>xs. set (ito xs) = set xs"
    and p: "parse_grid ito g sz = Returns vs"
    and s: "search ito (Some vs) sz = Returns sol"
  shows "\<exists>m. initialize_structures sz = Inr m \<and> valid_solution m sol"
proof -
  obtain m where m: "initialize_structures sz = Inr m"
    using p unfolding parse_grid_def by (cases "initialize_structures sz") auto
  have g: "good_values (peers_lookup ito m) (digits m) vs" by (rule parse_grid_good[OF m ord p])
  have "consistent (peers_lookup ito m) (digits m) (squares m) sol"
    by (rule search_consistent(1)[OF s m]) (simp add: g)
  then show ?thesis using consistent_valid[OF m ord] m by blast
qed

text \<open>
  A board of size 4 with one clue, on which \<open>search\<close> has to branch.
\<close>

definition example_puzzle :: grid where
  "example_puzzle = GridStr ''4
1 . . .
. . . .
. . . .
. . . .''"

definition example_solution :: "(cell \<times> digit) list" where
  "example_solution =
     [(''A1'', ''1''), (''A2'', ''2''), (''A3'', ''3''), (''A4'', ''4''),
      (''B1'', ''3''), (''B2'', ''4''), (''B3'', ''1''), (''B4'', ''2''),
      (''C1'', ''2''), (''C2'', ''1''), (''C3'', ''4''), (''C4'', ''3''),
      (''D1'', ''4''), (''D2'', ''3''), (''D3'', ''2''), (''D4'', ''1'')]"

definition example_values :: "values" where
  "example_values =
     [(''A1'', [''1'']), (''A2'', [''2'', ''3'', ''4'']),
      (''A3'', [''2'', ''3'', ''4'']), (''A4'', [''2'', ''3'', ''4'']),
      (''B1'', [''2'', ''3'', ''4'']), (''B2'', [''2'', ''3'', ''4'']),
      (''B3'', [''1'', ''2'', ''3'', ''4'']),
      (''B4'', [''1'', ''2'', ''3'', ''4'']), (''C1'', [''2'', ''3'', ''4'']),
      (''C2'', [''1'', ''2'', ''3'', ''4'']),
      (''C3'', [''1'', ''2'', ''3'', ''4'']),
      (''C4'', [''1'', ''2'', ''3'', ''4'']), (''D1'', [''2'', ''3'', ''4'']),
      (''D2'', [''1'', ''2'', ''3'', ''4'']),
      (''D3'', [''1'', ''2'', ''3'', ''4'']),
      (''D4'', [''1'', ''2'', ''3'', ''4''])]"

lemma example_parse: "parse_grid (\<lambda>xs. xs) example_puzzle 4 = Returns example_values"
  by code_simp

lemma example_search: "search (\<lambda>xs. xs) (Some example_values) 4 = Returns example_solution"
  by code_simp

lemma example_solve: "solve (\<lambda>xs. xs) example_puzzle 4 = Returns example_solution"
  by code_simp

subsection \<open>A solution the exact search returns is valid\<close>

text \<open>
  Claim C1. Whatever the puzzle \<open>g\<close> and the board size, and in whatever order the
  peer sets are iterated: if \<open>search\<close>, run on the assignment \<open>parse_grid\<close> returns for
  the puzzle, returns a solution, or if \<open>solve\<close> returns a solution, then the builder
  accepts the size and, in that solution, the digits along every column, every row and
  every subgrid of the unit list are a permutation of the digit alphabet.
\<close>

theorem exact_search_valid:
  assumes "\<forall>xs. set (ito xs) = set xs"
  shows "(\<forall>vs sol. parse_grid ito g sz = Returns vs \<longrightarrow> search ito (Some vs) sz = Returns sol
            \<longrightarrow> (\<exists>m. initialize_structures sz = Inr m \<and> valid_solution m sol))
       \<and> (\<forall>sol. solve ito g sz = Returns sol
            \<longrightarrow> (\<exists>m. initialize_structures sz = Inr m \<and> valid_solution m sol))"
proof (intro conjI allI impI)
  fix vs sol
  assume "parse_grid ito g sz = Returns vs" "search ito (Some vs) sz = Returns sol"
  then show "\<exists>m. initialize_structures sz = Inr m \<and> valid_solution m sol"
    by (rule search_valid[OF assms])
next
  fix sol assume s: "solve ito g sz = Returns sol"
  then obtain vs where "parse_grid ito g sz = Returns vs" "search ito (Some vs) sz = Returns sol"
    unfolding solve_def by (auto split: outcome.splits if_splits)
  then show "\<exists>m. initialize_structures sz = Inr m \<and> valid_solution m sol"
    by (rule search_valid[OF assms])
qed

theorem exact_search_valid_witness:
  "parse_grid (\<lambda>xs. xs) example_puzzle 4 = Returns example_values
   \<and> search (\<lambda>xs. xs) (Some example_values) 4 = Returns example_solution
   \<and> solve (\<lambda>xs. xs) example_puzzle 4 = Returns example_solution
   \<and> (\<exists>m. initialize_structures 4 = Inr m \<and> valid_solution m example_solution)"
  using exact_search_valid[of "\<lambda>xs. xs" example_puzzle 4] example_parse example_search example_solve
  by simp

section \<open>sudo.py: what eliminate does for the units of a cell\<close>

text \<open>
  The cells of a unit that still admit a digit (\<open>dplaces\<close> in \<open>norvig.py\<close> and in
  \<open>ACOSolver._eliminate_value\<close>), and the peers and units of the board of size 4.
\<close>

definition dplaces :: "values \<Rightarrow> cell list \<Rightarrow> digit \<Rightarrow> cell list" where
  "dplaces vs u d = filter (\<lambda>s. case map_of vs s of None \<Rightarrow> False | Some ds \<Rightarrow> d \<in> set ds) u"

definition board4_peers :: "cell \<Rightarrow> error + cell list" where
  "board4_peers s =
     (case initialize_structures 4 of Inl e \<Rightarrow> Inl e | Inr m \<Rightarrow> peers_lookup (\<lambda>xs. xs) m s)"

definition board4_units :: "cell \<Rightarrow> cell list list" where
  "board4_units s =
     (case initialize_structures 4 of
        Inl e \<Rightarrow> []
      | Inr m \<Rightarrow> (case map_of (units m) s of None \<Rightarrow> [] | Some us \<Rightarrow> us))"

text \<open>
  Two assignments on the board of size 4. In the first, \<open>A1\<close> is the only cell of row
  \<open>A\<close> that admits the digit 1; in the second, \<open>A1\<close> and \<open>A2\<close> are.
\<close>

definition no_place_values :: "values" where
  "no_place_values =
     [(''A1'', [''1'', ''2'', ''3'']), (''A2'', [''2'', ''3'', ''4'']),
      (''A3'', [''2'', ''3'', ''4'']), (''A4'', [''2'', ''3'', ''4'']),
      (''B1'', [''1'', ''2'', ''3'', ''4'']), (''B2'', [''1'', ''2'', ''3'', ''4'']),
      (''B3'', [''1'', ''2'', ''3'', ''4'']), (''B4'', [''1'', ''2'', ''3'', ''4'']),
      (''C1'', [''1'', ''2'', ''3'', ''4'']), (''C2'', [''1'', ''2'', ''3'', ''4'']),
      (''C3'', [''1'', ''2'', ''3'', ''4'']), (''C4'', [''1'', ''2'', ''3'', ''4'']),
      (''D1'', [''1'', ''2'', ''3'', ''4'']), (''D2'', [''1'', ''2'', ''3'', ''4'']),
      (''D3'', [''1'', ''2'', ''3'', ''4'']), (''D4'', [''1'', ''2'', ''3'', ''4''])]"

definition one_place_values :: "values" where
  "one_place_values = AList.update ''A2'' [''1'', ''2'', ''3'', ''4''] no_place_values"

lemma board4_row: "[''A1'', ''A2'', ''A3'', ''A4''] \<in> set (board4_units ''A1'')"
  by code_simp

lemma no_place_after:
  "dplaces (AList.update ''A1'' [''2'', ''3''] no_place_values) [''A1'', ''A2'', ''A3'', ''A4''] ''1'' = []"
  by code_simp

lemma one_place_after:
  "dplaces (AList.update ''A1'' [''2'', ''3''] one_place_values) [''A1'', ''A2'', ''A3'', ''A4''] ''1'' = [''A2'']"
  by code_simp

lemma one_place_untouched:
  "map_of (AList.update ''A1'' [''2'', ''3''] one_place_values) ''A2'' = Some [''1'', ''2'', ''3'', ''4'']"
  by code_simp

text \<open>
  Claim C2 states that \<open>eliminate\<close>, after removing \<open>d\<close> from \<open>s\<close>, checks every unit
  of \<open>s\<close>, fails when the unit has no place left for \<open>d\<close>, and assigns \<open>d\<close> where the
  unit has exactly one place left. \<open>eliminate\<close> of \<open>sudo.py\<close> has no such step (it is
  not even given the units): whenever \<open>d\<close> is one of more than two candidates of \<open>s\<close>,
  it returns the assignment with \<open>d\<close> removed from \<open>s\<close> and nothing else changed,
  whatever the other cells admit.
\<close>

theorem eliminate_skips_units:
  assumes "map_of vs s = Some ds" "d \<in> set ds" "2 < length ds"
  shows "eliminate prs vs s d = Returns (AList.update s (remove1 d ds) vs)"
proof -
  have l: "length (remove1 d ds) = length ds - 1" using assms(2) by (simp add: length_remove1)
  then have "length (remove1 d ds) \<noteq> 0" "length (remove1 d ds) \<noteq> 1" using assms(3) by simp_all
  then show ?thesis using assms(1,2) by (simp add: eliminate.simps Let_def)
qed

text \<open>
  On the board of size 4, eliminating 1 from \<open>A1\<close> succeeds although row \<open>A\<close>, a
  unit of \<open>A1\<close>, is left without a place for 1; and when \<open>A2\<close> is left as the only
  place for 1 in the row, \<open>A2\<close> keeps all its candidates.
\<close>

theorem eliminate_skips_units_witness:
  "[''A1'', ''A2'', ''A3'', ''A4''] \<in> set (board4_units ''A1'')
   \<and> eliminate board4_peers no_place_values ''A1'' ''1''
       = Returns (AList.update ''A1'' [''2'', ''3''] no_place_values)
   \<and> dplaces (AList.update ''A1'' [''2'', ''3''] no_place_values) [''A1'', ''A2'', ''A3'', ''A4''] ''1'' = []
   \<and> eliminate board4_peers one_place_values ''A1'' ''1''
       = Returns (AList.update ''A1'' [''2'', ''3''] one_place_values)
   \<and> dplaces (AList.update ''A1'' [''2'', ''3''] one_place_values) [''A1'', ''A2'', ''A3'', ''A4''] ''1'' = [''A2'']
   \<and> map_of (AList.update ''A1'' [''2'', ''3''] one_place_values) ''A2'' = Some [''1'', ''2'', ''3'', ''4'']"
  using eliminate_skips_units[of no_place_values "''A1''" "[''1'', ''2'', ''3'']" "''1''" board4_peers]
    eliminate_skips_units[of one_place_values "''A1''" "[''1'', ''2'', ''3'']" "''1''" board4_peers]
    board4_row no_place_after one_place_after one_place_untouched
  by (simp add: no_place_values_def one_place_values_def)

section \<open>msabc_solver.py: the multi-swarm coordinator\<close>

text \<open>
  An instance of \<open>MSABCSolver\<close> is the dictionary of the attributes its constructor
  sets; \<open>'w\<close> is the type of a constructed \<open>ABCSolver\<close> and \<open>'r\<close> that of the unused
  parameter \<open>rcloud\<close>. Reading an attribute finds an instance attribute, or a method of
  the class, or raises \<open>AttributeError\<close>.
\<close>

datatype ('w, 'r) pyval = IntVal int | NegInf | NoneVal | ListVal "'w list" | Param 'r

type_synonym ('w, 'r) pyobject = "(string \<times> ('w, 'r) pyval) list"

text \<open>
  What a generator does when it is run to its end: the values it yields, and the
  exception that ends it, if one does.
\<close>

datatype 'y generator = Generator "'y list" "error option"

definition getattr :: "string list \<Rightarrow> ('w, 'r) pyobject \<Rightarrow> string \<Rightarrow> error + ('w, 'r) pyval option" where
  "getattr methods self name =
     (case map_of self name of
        Some v \<Rightarrow> Inr (Some v)
      | None \<Rightarrow> if name \<in> set methods then Inr None else Inl AttributeError)"

definition msabc_methods :: "string list" where
  "msabc_methods = [''__init__'', ''solve'', ''get_solution'']"

text \<open>
  \<open>MSABCSolver.__init__\<close>; \<open>abc_solver\<close> is the constructor \<open>ABCSolver\<close> applied to the
  puzzle, which may raise. The attribute that holds the sub-swarms is \<open>swarms\<close>.
\<close>

definition msabc_init ::
  "(int \<Rightarrow> int \<Rightarrow> error + 'w) \<Rightarrow> int \<Rightarrow> int \<Rightarrow> int \<Rightarrow> 'r \<Rightarrow> int \<Rightarrow> error + ('w, 'r) pyobject" where
  "msabc_init abc_solver sz population_size num_swarms rcloud max_cycles =
     (case sequence (map (\<lambda>_. abc_solver sz population_size) [0..<nat num_swarms]) of
        Inl e \<Rightarrow> Inl e
      | Inr ws \<Rightarrow>
          Inr [(''size'', IntVal sz), (''population_size'', IntVal population_size),
               (''num_swarms'', IntVal num_swarms), (''max_cycles'', IntVal max_cycles),
               (''rcloud'', Param rcloud), (''swarms'', ListVal ws),
               (''global_best'', NoneVal), (''global_fitness'', NegInf)])"

text \<open>
  \<open>MSABCSolver.solve\<close>. The first statement of the first cycle reads
  \<open>self.subswarms\<close>; \<open>rest\<close> stands for everything the generator does once that
  attribute has been read, from the attribute's value, the instance and the cycle
  budget.
\<close>

definition msabc_solve ::
  "(('w, 'r) pyval option \<Rightarrow> ('w, 'r) pyobject \<Rightarrow> int \<Rightarrow> 'y generator)
     \<Rightarrow> ('w, 'r) pyobject \<Rightarrow> 'y generator" where
  "msabc_solve rest self =
     (case getattr msabc_methods self ''max_cycles'' of
        Inl e \<Rightarrow> Generator [] (Some e)
      | Inr (Some (IntVal n)) \<Rightarrow>
          if n \<le> 0 then Generator [] None
          else
            (case getattr msabc_methods self ''subswarms'' of
               Inl e \<Rightarrow> Generator [] (Some e)
             | Inr v \<Rightarrow> rest v self n)
      | Inr _ \<Rightarrow> Generator [] (Some TypeError))"

text \<open>
  Claim C8 states that every cycle advances each sub-swarm, updates the global best and
  yields it. The constructor stores the sub-swarms under the name \<open>swarms\<close>, and
  \<open>solve\<close> reads \<open>self.subswarms\<close>: on every coordinator the constructor returns, with a
  cycle budget of at least one, \<open>solve\<close> raises \<open>AttributeError\<close> in its first cycle,
  before any sub-swarm is advanced and before anything is yielded, whatever the rest of
  the loop would do.
\<close>

theorem msabc_solve_fails:
  assumes "msabc_init abc_solver sz population_size num_swarms rcloud max_cycles = Inr self"
    and "1 \<le> max_cycles"
  shows "msabc_solve rest self = Generator [] (Some AttributeError)"
proof -
  from assms(1) obtain ws where self: "self =
          [(''size'', IntVal sz), (''population_size'', IntVal population_size),
           (''num_swarms'', IntVal num_swarms), (''max_cycles'', IntVal max_cycles),
           (''rcloud'', Param rcloud), (''swarms'', ListVal ws),
           (''global_best'', NoneVal), (''global_fitness'', NegInf)]"
    unfolding msabc_init_def by (auto split: sum.splits)
  have "getattr msabc_methods self ''max_cycles'' = Inr (Some (IntVal max_cycles))"
    by (simp add: getattr_def self)
  moreover have "getattr msabc_methods self ''subswarms'' = Inl AttributeError"
    by (simp add: getattr_def self msabc_methods_def)
  ultimately show ?thesis using assms(2) by (simp add: msabc_solve_def)
qed

text \<open>
  Three sub-swarms and the default budget of 10000 cycles.
\<close>

theorem msabc_solve_fails_witness:
  "msabc_init (\<lambda>sz p. Inr (sz, p)) 9 50 3 () 10000
     = Inr [(''size'', IntVal 9), (''population_size'', IntVal 50),
               (''num_swarms'', IntVal 3), (''max_cycles'', IntVal 10000),
               (''rcloud'', Param ()), (''swarms'', ListVal [(9, 50), (9, 50), (9, 50)]),
               (''global_best'', NoneVal), (''global_fitness'', NegInf)]
   \<and> msabc_solve (\<lambda>v self n. Generator [(0::nat)] None)
        [(''size'', IntVal 9), (''population_size'', IntVal 50),
               (''num_swarms'', IntVal 3), (''max_cycles'', IntVal 10000),
               (''rcloud'', Param ()), (''swarms'', ListVal [(9::int, 50::int), (9, 50), (9, 50)]),
               (''global_best'', NoneVal), (''global_fitness'', NegInf)]
       = Generator [] (Some AttributeError)"
proof -
  have i: "msabc_init (\<lambda>sz p. Inr (sz, p)) 9 50 3 () 10000
     = Inr [(''size'', IntVal 9), (''population_size'', IntVal 50),
               (''num_swarms'', IntVal 3), (''max_cycles'', IntVal 10000),
               (''rcloud'', Param ()), (''swarms'', ListVal [(9::int, 50::int), (9, 50), (9, 50)]),
               (''global_best'', NoneVal), (''global_fitness'', NegInf)]"
    by (simp add: msabc_init_def upt_rec numeral_nat)
  show ?thesis using msabc_solve_fails[OF i, of "\<lambda>v self n. Generator [(0::nat)] None"] i by simp
qed

end
